theory Spec2Isabelle
  imports Main "HOL-Library.Word" "HOL-Library.Multiset"
begin

section \<open>The alternating disks problem (disks.hpp)\<close>

text \<open>
  The header is modelled for the LP64 data model of the usual 64-bit targets:
  \<open>unsigned\<close> and \<open>int\<close> are 32 bits wide, \<open>size_t\<close> is 64 bits wide.

  \<^item> A \<open>std::vector\<close> is a list (memory is not bounded by the model), and a \<open>size_t\<close> is
    a natural number with the wrap-around written out where the header's arithmetic can
    reach it: the product \<open>light_count * 2\<close> of the constructor is taken modulo \<open>2 ^ 64\<close>
    (\<open>size_t_times\<close>), and the subtraction \<open>total_count() - 1\<close>, which wraps on an empty
    row, is \<open>size_t_pred\<close>. The increments \<open>i + 1\<close> and \<open>i += 2\<close> stay below the length of
    the row.
  \<^item> The loop index \<open>unsigned i\<close> of \<open>is_sorted\<close> is a 32-bit word: \<open>i++\<close> wraps.
  \<^item> The local \<open>int swap_count\<close> of the two algorithms is an integer that counts the
    increments; it is converted to the \<open>unsigned\<close> field of \<open>sorted_disks\<close> by
    \<open>word_of_int\<close>. Past \<open>INT_MAX\<close> the increment is a signed overflow, which C++ leaves
    undefined; the model takes what a two's complement counter holds after that many
    increments, the count modulo \<open>2 ^ 32\<close>.
  \<^item> A failed \<open>assert\<close> aborts the program: the result \<open>Inl AssertionFailed\<close>.
  \<^item> A loop that may run forever returns an \<open>option\<close>: \<open>None\<close> is "never returns".
\<close>

subsection \<open>Data\<close>

datatype disk_color = DISK_LIGHT | DISK_DARK

record disk_state =
  colors :: "disk_color list"

datatype error = AssertionFailed

record sorted_disks =
  after :: disk_state
  swap_count :: "32 word"

subsection \<open>Arithmetic on \<open>size_t\<close>\<close>

definition SIZE_MAX :: nat where
  "SIZE_MAX = 2 ^ 64 - 1"

text \<open>\<open>a * b\<close> on \<open>size_t\<close>: modulo \<open>2 ^ 64\<close>.\<close>

definition size_t_times :: "nat \<Rightarrow> nat \<Rightarrow> nat" where
  "size_t_times a b = (a * b) mod (SIZE_MAX + 1)"

subsection \<open>The row of disks\<close>

text \<open>The constructor's loop: \<open>for (size_t i = 0; i < _colors.size(); i += 2) _colors[i] = DISK_DARK\<close>.\<close>

function disk_state_loop :: "disk_color list \<Rightarrow> nat \<Rightarrow> disk_color list" where
  "disk_state_loop cs i =
     (if i < length cs then disk_state_loop (cs[i := DISK_DARK]) (i + 2) else cs)"
  by pat_completeness auto
termination
  by (relation "measure (\<lambda>(cs, i). length cs - i)") auto

definition disk_state :: "nat \<Rightarrow> error + disk_state" where
  "disk_state light_count =
     (let cs = replicate (size_t_times light_count 2) DISK_LIGHT
      in if light_count > 0 then Inr \<lparr>colors = disk_state_loop cs 0\<rparr>
         else Inl AssertionFailed)"

definition total_count :: "disk_state \<Rightarrow> nat" where
  "total_count d = length (colors d)"

definition light_count :: "disk_state \<Rightarrow> nat" where
  "light_count d = total_count d div 2"

definition dark_count :: "disk_state \<Rightarrow> nat" where
  "dark_count d = light_count d"

definition is_index :: "disk_state \<Rightarrow> nat \<Rightarrow> bool" where
  "is_index d i = (i < total_count d)"

definition get :: "disk_state \<Rightarrow> nat \<Rightarrow> error + disk_color" where
  "get d index =
     (if is_index d index then Inr (colors d ! index) else Inl AssertionFailed)"

definition swap :: "disk_state \<Rightarrow> nat \<Rightarrow> error + disk_state" where
  "swap d left_index =
     (if \<not> is_index d left_index then Inl AssertionFailed
      else let right_index = left_index + 1
           in if \<not> is_index d right_index then Inl AssertionFailed
              else Inr (d\<lparr>colors := (colors d)[left_index := colors d ! right_index,
                                               right_index := colors d ! left_index]\<rparr>))"

text \<open>
  \<open>is_sorted\<close>: the scan of the first half with its 32-bit index. The flag \<open>s\<close> starts
  \<open>False\<close> and is set in the loop body only.
\<close>

partial_function (option)
  is_sorted_loop :: "disk_state \<Rightarrow> 32 word \<Rightarrow> bool \<Rightarrow> (error + bool) option"
where
  "is_sorted_loop d i s =
     (if unat i < total_count d div 2 then
        (case get d (unat i) of
           Inl e \<Rightarrow> Some (Inl e)
         | Inr c \<Rightarrow>
             if c = DISK_LIGHT then is_sorted_loop d (i + 1) True
             else Some (Inr False))
      else Some (Inr s))"

definition is_sorted :: "disk_state \<Rightarrow> (error + bool) option" where
  "is_sorted d = is_sorted_loop d 0 False"

subsection \<open>The two algorithms\<close>

text \<open>\<open>a - 1\<close> on \<open>size_t\<close>: it wraps to \<open>SIZE_MAX\<close> at 0.\<close>

definition size_t_pred :: "nat \<Rightarrow> nat" where
  "size_t_pred a = (if a = 0 then SIZE_MAX else a - 1)"

text \<open>
  The pass to the right, shared by both algorithms:
  \<open>for (size_t i = 0; i < after.total_count() - 1; i++)\<close>. The right operand of \<open>&&\<close> is
  evaluated only when the left one holds.
\<close>

function pass_right :: "disk_state \<Rightarrow> int \<Rightarrow> nat \<Rightarrow> error + disk_state \<times> int" where
  "pass_right d cnt i =
     (if i < size_t_pred (total_count d) then
        (case get d i of
           Inl e \<Rightarrow> Inl e
         | Inr l \<Rightarrow>
             if l = DISK_DARK then
               (case get d (i + 1) of
                  Inl e \<Rightarrow> Inl e
                | Inr r \<Rightarrow>
                    if r = DISK_LIGHT then
                      (case swap d i of
                         Inl e \<Rightarrow> Inl e
                       | Inr d' \<Rightarrow> pass_right d' (cnt + 1) (i + 1))
                    else pass_right d cnt (i + 1))
             else pass_right d cnt (i + 1))
      else Inr (d, cnt))"
  by pat_completeness auto
termination
  by (relation "measure (\<lambda>(d, cnt, i). size_t_pred (total_count d) - i)")
     (auto simp: swap_def total_count_def Let_def split: if_splits)

text \<open>The pass to the left of the lawnmower: \<open>for (size_t j = after.total_count() - 1; j > 0; j--)\<close>.\<close>

function pass_left :: "disk_state \<Rightarrow> int \<Rightarrow> nat \<Rightarrow> error + disk_state \<times> int" where
  "pass_left d cnt j =
     (if j > 0 then
        (case get d j of
           Inl e \<Rightarrow> Inl e
         | Inr r \<Rightarrow>
             if r = DISK_LIGHT then
               (case get d (j - 1) of
                  Inl e \<Rightarrow> Inl e
                | Inr l \<Rightarrow>
                    if l = DISK_DARK then
                      (case swap d (j - 1) of
                         Inl e \<Rightarrow> Inl e
                       | Inr d' \<Rightarrow> pass_left d' (cnt + 1) (j - 1))
                    else pass_left d cnt (j - 1))
             else pass_left d cnt (j - 1))
      else Inr (d, cnt))"
  by pat_completeness auto
termination
  by (relation "measure (\<lambda>(d, cnt, j). j)") auto

text \<open>The outer loops \<open>while (!after.is_sorted())\<close>.\<close>

partial_function (option)
  sort_left_to_right_loop :: "disk_state \<Rightarrow> int \<Rightarrow> (error + disk_state \<times> int) option"
where
  "sort_left_to_right_loop d cnt =
     (case is_sorted d of
        None \<Rightarrow> None
      | Some (Inl e) \<Rightarrow> Some (Inl e)
      | Some (Inr b) \<Rightarrow>
          if b then Some (Inr (d, cnt))
          else (case pass_right d cnt 0 of
                  Inl e \<Rightarrow> Some (Inl e)
                | Inr (d', cnt') \<Rightarrow> sort_left_to_right_loop d' cnt'))"

partial_function (option)
  sort_lawnmower_loop :: "disk_state \<Rightarrow> int \<Rightarrow> (error + disk_state \<times> int) option"
where
  "sort_lawnmower_loop d cnt =
     (case is_sorted d of
        None \<Rightarrow> None
      | Some (Inl e) \<Rightarrow> Some (Inl e)
      | Some (Inr b) \<Rightarrow>
          if b then Some (Inr (d, cnt))
          else (case pass_right d cnt 0 of
                  Inl e \<Rightarrow> Some (Inl e)
                | Inr (d', cnt') \<Rightarrow>
                    (case pass_left d' cnt' (size_t_pred (total_count d')) of
                       Inl e \<Rightarrow> Some (Inl e)
                     | Inr (d'', cnt'') \<Rightarrow> sort_lawnmower_loop d'' cnt'')))"

text \<open>\<open>return sorted_disks(after, swap_count)\<close>: the \<open>int\<close> becomes the \<open>unsigned\<close> field.\<close>

definition make_sorted_disks :: "disk_state \<times> int \<Rightarrow> sorted_disks" where
  "make_sorted_disks r = \<lparr>after = fst r, swap_count = word_of_int (snd r)\<rparr>"

definition sort_left_to_right :: "disk_state \<Rightarrow> (error + sorted_disks) option" where
  "sort_left_to_right before =
     map_option (map_sum id make_sorted_disks) (sort_left_to_right_loop before 0)"

definition sort_lawnmower :: "disk_state \<Rightarrow> (error + sorted_disks) option" where
  "sort_lawnmower before =
     map_option (map_sum id make_sorted_disks) (sort_lawnmower_loop before 0)"

subsection \<open>The outer loops, observed after a bounded number of tests\<close>

text \<open>
  What a run of an outer loop has done by the time it has tested its condition \<open>k\<close> times:
  it has returned, it was aborted by an \<open>assert\<close>, it hangs inside \<open>is_sorted\<close>, or it is
  still running. The row and the counter are those of that moment, so the counter of a run
  that hangs is the number of swaps the run performs. The loop bodies are those of
  \<open>sort_left_to_right_loop\<close> and \<open>sort_lawnmower_loop\<close>.
\<close>

datatype loop_run =
  Returns disk_state int | Aborts error | Hangs disk_state int | Running disk_state int

fun left_to_right_run :: "nat \<Rightarrow> disk_state \<Rightarrow> int \<Rightarrow> loop_run" where
  "left_to_right_run 0 d cnt = Running d cnt"
| "left_to_right_run (Suc k) d cnt =
     (case is_sorted d of
        None \<Rightarrow> Hangs d cnt
      | Some (Inl e) \<Rightarrow> Aborts e
      | Some (Inr b) \<Rightarrow>
          if b then Returns d cnt
          else (case pass_right d cnt 0 of
                  Inl e \<Rightarrow> Aborts e
                | Inr (d', cnt') \<Rightarrow> left_to_right_run k d' cnt'))"

fun lawnmower_run :: "nat \<Rightarrow> disk_state \<Rightarrow> int \<Rightarrow> loop_run" where
  "lawnmower_run 0 d cnt = Running d cnt"
| "lawnmower_run (Suc k) d cnt =
     (case is_sorted d of
        None \<Rightarrow> Hangs d cnt
      | Some (Inl e) \<Rightarrow> Aborts e
      | Some (Inr b) \<Rightarrow>
          if b then Returns d cnt
          else (case pass_right d cnt 0 of
                  Inl e \<Rightarrow> Aborts e
                | Inr (d', cnt') \<Rightarrow>
                    (case pass_left d' cnt' (size_t_pred (total_count d')) of
                       Inl e \<Rightarrow> Aborts e
                     | Inr (d'', cnt'') \<Rightarrow> lawnmower_run k d'' cnt'')))"

subsection \<open>Notions used to state the results\<close>

text \<open>What \<open>is_sorted\<close> looks for: a first half that is not empty and all light.\<close>

definition first_half_light :: "disk_state \<Rightarrow> bool" where
  "first_half_light d \<longleftrightarrow>
     0 < total_count d div 2 \<and> (\<forall>i < total_count d div 2. colors d ! i = DISK_LIGHT)"

text \<open>
  The number of pairs of positions with a dark disk somewhere to the left of a light disk.
\<close>

fun inversions :: "disk_color list \<Rightarrow> nat" where
  "inversions [] = 0"
| "inversions (x # xs) =
     (if x = DISK_DARK then count_list xs DISK_LIGHT else 0) + inversions xs"

text \<open>From index \<open>i\<close> on, no dark disk stands immediately to the left of a light disk.\<close>

definition no_dark_light :: "disk_state \<Rightarrow> nat \<Rightarrow> bool" where
  "no_dark_light d i \<longleftrightarrow>
     (\<forall>j. i \<le> j \<and> j + 1 < total_count d \<longrightarrow>
          \<not> (colors d ! j = DISK_DARK \<and> colors d ! (j + 1) = DISK_LIGHT))"

text \<open>
  A row with \<open>n\<close> light and \<open>n\<close> dark disks: the rows that adjacent swaps can reach from
  the row the constructor builds for \<open>n\<close>.
\<close>

definition balanced :: "disk_state \<Rightarrow> nat \<Rightarrow> bool" where
  "balanced d n \<longleftrightarrow>
     count_list (colors d) DISK_LIGHT = n \<and> count_list (colors d) DISK_DARK = n"

text \<open>
  One pass over a list: \<open>bubble DISK_DARK DISK_LIGHT\<close> is the pass to the right, and
  \<open>bubble DISK_LIGHT DISK_DARK\<close> on the reversed row is the pass to the left.
\<close>

fun bubble :: "disk_color \<Rightarrow> disk_color \<Rightarrow> disk_color list \<Rightarrow> disk_color list" where
  "bubble p q (x # y # xs) =
     (if x = p \<and> y = q then q # bubble p q (p # xs) else x # bubble p q (y # xs))"
| "bubble p q xs = xs"

text \<open>
  The rows the algorithms go through from the row the constructor builds: \<open>a\<close> light
  disks, \<open>m\<close> pairs still alternating, \<open>a\<close> dark disks.
\<close>

definition stage :: "nat \<Rightarrow> nat \<Rightarrow> disk_state" where
  "stage a m =
     \<lparr>colors = replicate a DISK_LIGHT @ concat (replicate m [DISK_DARK, DISK_LIGHT])
                @ replicate a DISK_DARK\<rparr>"

declare pass_right.simps [simp del] pass_left.simps [simp del] disk_state_loop.simps [simp del]

declare is_sorted_loop.simps [code] sort_left_to_right_loop.simps [code]
  sort_lawnmower_loop.simps [code]

section \<open>Properties of the loops\<close>

subsection \<open>The scan of \<open>is_sorted\<close>\<close>

lemma total_count_colors [simp]: "total_count \<lparr>colors = cs\<rparr> = length cs"
  by (simp add: total_count_def)

lemma get_in_range: "i < total_count d \<Longrightarrow> get d i = Inr (colors d ! i)"
  by (simp add: get_def is_index_def)

lemma is_sorted_loop_small:
  assumes h: "total_count d div 2 < 2 ^ 32"
  shows "unat i \<le> total_count d div 2 \<Longrightarrow>
     is_sorted_loop d i s =
       Some (Inr ((\<forall>k. unat i \<le> k \<and> k < total_count d div 2 \<longrightarrow> colors d ! k = DISK_LIGHT)
                  \<and> (s \<or> unat i < total_count d div 2)))"
proof (induction "total_count d div 2 - unat i" arbitrary: i s)
  case 0
  then have "\<not> unat i < total_count d div 2" by simp
  then show ?case by (subst is_sorted_loop.simps) auto
next
  case (Suc m)
  then have lt: "unat i < total_count d div 2" by simp
  with h have "unat i + 1 < 2 ^ 32" by simp
  then have u: "unat (i + 1) = unat i + 1"
    by (simp add: unat_word_ariths)
  have g: "get d (unat i) = Inr (colors d ! unat i)"
    using lt by (intro get_in_range) simp
  show ?case
  proof (cases "colors d ! unat i = DISK_LIGHT")
    case True
    have "is_sorted_loop d i s = is_sorted_loop d (i + 1) True"
      using lt g True by (subst is_sorted_loop.simps) simp
    also have "\<dots> = Some (Inr ((\<forall>k. unat (i + 1) \<le> k \<and> k < total_count d div 2 \<longrightarrow> colors d ! k = DISK_LIGHT)
                  \<and> (True \<or> unat (i + 1) < total_count d div 2)))"
      using Suc.hyps(2) lt u by (intro Suc.hyps(1)) simp_all
    also have "(\<forall>k. unat (i + 1) \<le> k \<and> k < total_count d div 2 \<longrightarrow> colors d ! k = DISK_LIGHT)
       \<longleftrightarrow> (\<forall>k. unat i \<le> k \<and> k < total_count d div 2 \<longrightarrow> colors d ! k = DISK_LIGHT)"
      using True u by (metis Suc_eq_plus1 Suc_leI le_eq_less_or_eq less_Suc_eq_le not_less_eq_eq)
    finally show ?thesis using lt by simp
  next
    case False
    have "is_sorted_loop d i s = Some (Inr False)"
      using lt g False by (subst is_sorted_loop.simps) simp
    then show ?thesis using False lt by auto
  qed
qed

lemma is_sorted_small:
  "total_count d div 2 < 2 ^ 32 \<Longrightarrow> is_sorted d = Some (Inr (first_half_light d))"
  unfolding is_sorted_def first_half_light_def
  by (subst is_sorted_loop_small) auto

lemma is_sorted_loop_large:
  assumes "is_sorted_loop d i s = Some y"
  shows "2 ^ 32 \<le> total_count d div 2 \<longrightarrow> y = Inr False"
proof (rule is_sorted_loop.raw_induct
         [where P = "\<lambda>d i s y. 2 ^ 32 \<le> total_count d div 2 \<longrightarrow> y = Inr False", OF _ assms])
  fix f :: "disk_state \<Rightarrow> 32 word \<Rightarrow> bool \<Rightarrow> (error + bool) option" and d i s y
  assume IH: "\<And>d i s y. f d i s = Some y \<Longrightarrow> 2 ^ 32 \<le> total_count d div 2 \<longrightarrow> y = Inr False"
    and eq: "(if unat i < total_count d div 2
              then case get d (unat i) of
                     Inl e \<Rightarrow> Some (Inl e)
                   | Inr c \<Rightarrow> if c = DISK_LIGHT then f d (i + 1) True else Some (Inr False)
              else Some (Inr s)) = Some y"
  show "2 ^ 32 \<le> total_count d div 2 \<longrightarrow> y = Inr False"
  proof
    assume big: "2 ^ 32 \<le> total_count d div 2"
    have "unat i < 2 ^ 32" using unsigned_less [of i, where ?'a = nat] by simp
    with big have lt: "unat i < total_count d div 2" by simp
    then have g: "get d (unat i) = Inr (colors d ! unat i)"
      by (intro get_in_range) simp
    show "y = Inr False" using eq lt g IH [of d "i + 1" True y] big
      by (simp split: if_splits)
  qed
qed

lemma is_sorted_large:
  "2 ^ 32 \<le> total_count d div 2 \<Longrightarrow> is_sorted d = None \<or> is_sorted d = Some (Inr False)"
  unfolding is_sorted_def using is_sorted_loop_large [of d 0 False]
  by (cases "is_sorted_loop d 0 False") auto

lemma is_sorted_loop_all_light:
  assumes "is_sorted_loop d i s = Some y"
  shows "\<not> (2 ^ 32 \<le> total_count d div 2 \<and> (\<forall>k < 2 ^ 32. colors d ! k = DISK_LIGHT))"
proof (rule is_sorted_loop.raw_induct
         [where P = "\<lambda>d i s y. \<not> (2 ^ 32 \<le> total_count d div 2 \<and> (\<forall>k < 2 ^ 32. colors d ! k = DISK_LIGHT))",
          OF _ assms])
  fix f :: "disk_state \<Rightarrow> 32 word \<Rightarrow> bool \<Rightarrow> (error + bool) option" and d i s y
  assume IH: "\<And>d i s y. f d i s = Some y \<Longrightarrow>
                \<not> (2 ^ 32 \<le> total_count d div 2 \<and> (\<forall>k < 2 ^ 32. colors d ! k = DISK_LIGHT))"
    and eq: "(if unat i < total_count d div 2
              then case get d (unat i) of
                     Inl e \<Rightarrow> Some (Inl e)
                   | Inr c \<Rightarrow> if c = DISK_LIGHT then f d (i + 1) True else Some (Inr False)
              else Some (Inr s)) = Some y"
  show "\<not> (2 ^ 32 \<le> total_count d div 2 \<and> (\<forall>k < 2 ^ 32. colors d ! k = DISK_LIGHT))"
  proof
    assume a: "2 ^ 32 \<le> total_count d div 2 \<and> (\<forall>k < 2 ^ 32. colors d ! k = DISK_LIGHT)"
    have u: "unat i < 2 ^ 32" using unsigned_less [of i, where ?'a = nat] by simp
    with a have lt: "unat i < total_count d div 2" by simp
    then have g: "get d (unat i) = Inr (colors d ! unat i)"
      by (intro get_in_range) simp
    show False using eq lt g IH [of d "i + 1" True y] a u
      by (simp split: if_splits)
  qed
qed

lemma is_sorted_all_light:
  "2 ^ 32 \<le> total_count d div 2 \<Longrightarrow> \<forall>k < 2 ^ 32. colors d ! k = DISK_LIGHT \<Longrightarrow> is_sorted d = None"
  unfolding is_sorted_def using is_sorted_loop_all_light [of d 0 False]
  by (cases "is_sorted_loop d 0 False") auto

subsection \<open>Inversions\<close>

lemma inversions_append:
  "inversions (xs @ ys) =
     inversions xs + inversions ys + count_list xs DISK_DARK * count_list ys DISK_LIGHT"
  by (induction xs) (auto simp: algebra_simps)

lemma inversions_swap:
  "inversions (pre @ DISK_DARK # DISK_LIGHT # suf) =
     inversions (pre @ DISK_LIGHT # DISK_DARK # suf) + 1"
  by (simp add: inversions_append)

lemma split_at_pair:
  "i + 1 < length cs \<Longrightarrow> cs = take i cs @ cs ! i # cs ! (i + 1) # drop (i + 2) cs"
  by (metis Cons_nth_drop_Suc Suc_eq_plus1 Suc_lessD add_2_eq_Suc' append_take_drop_id)

lemma swap_at_pair:
  assumes "i + 1 < length cs"
  shows "cs[i := cs ! (i + 1), i + 1 := cs ! i] =
           take i cs @ cs ! (i + 1) # cs ! i # drop (i + 2) cs"
proof -
  have l: "length (take i cs) = i" using assms by simp
  have "cs[i := cs ! (i + 1), i + 1 := cs ! i] =
          (take i cs @ cs ! i # cs ! (i + 1) # drop (i + 2) cs)[i := cs ! (i + 1), i + 1 := cs ! i]"
    using split_at_pair [OF assms] by simp
  also have "\<dots> = take i cs @ cs ! (i + 1) # cs ! i # drop (i + 2) cs"
    using l by (simp add: list_update_append)
  finally show ?thesis .
qed

lemma swap_ok:
  "i + 1 < total_count d \<Longrightarrow>
   swap d i = Inr (d\<lparr>colors := take i (colors d) @ colors d ! (i + 1) # colors d ! i
                                   # drop (i + 2) (colors d)\<rparr>)"
  using swap_at_pair [of i "colors d"]
  by (simp add: swap_def is_index_def Let_def total_count_def)

lemma swap_step:
  assumes "i + 1 < total_count d" "colors d ! i = DISK_DARK" "colors d ! (i + 1) = DISK_LIGHT"
  obtains d' where "swap d i = Inr d'" "mset (colors d') = mset (colors d)"
    "inversions (colors d') + 1 = inversions (colors d)"
proof -
  let ?cs = "colors d"
  let ?d' = "d\<lparr>colors := take i ?cs @ DISK_LIGHT # DISK_DARK # drop (i + 2) ?cs\<rparr>"
  have len: "i + 1 < length ?cs" using assms(1) by (simp add: total_count_def)
  have cs: "?cs = take i ?cs @ DISK_DARK # DISK_LIGHT # drop (i + 2) ?cs"
    using split_at_pair [OF len] assms(2,3) by simp
  have 1: "swap d i = Inr ?d'" using swap_ok [OF assms(1)] assms(2,3) by simp
  have "mset ?cs = mset (take i ?cs @ DISK_DARK # DISK_LIGHT # drop (i + 2) ?cs)"
    using cs by simp
  then have 2: "mset (colors ?d') = mset ?cs" by simp
  have "inversions ?cs = inversions (take i ?cs @ DISK_DARK # DISK_LIGHT # drop (i + 2) ?cs)"
    using cs by simp
  then have 3: "inversions (colors ?d') + 1 = inversions ?cs"
    by (simp add: inversions_swap)
  from 1 2 3 show ?thesis by (rule that)
qed



lemma total_count_mset:
  "mset (colors d') = mset (colors d) \<Longrightarrow> total_count d' = total_count d"
  unfolding total_count_def by (rule mset_eq_length)

lemma no_dark_light_step:
  "\<not> (colors d ! i = DISK_DARK \<and> colors d ! (i + 1) = DISK_LIGHT) \<Longrightarrow>
   no_dark_light d (i + 1) \<Longrightarrow> no_dark_light d i"
  unfolding no_dark_light_def by (metis Suc_eq_plus1 Suc_leI le_neq_implies_less)

lemma pass_right_run:
  "0 < total_count d \<Longrightarrow>
   \<exists>d' k. pass_right d c i = Inr (d', c + int k) \<and> mset (colors d') = mset (colors d)
      \<and> inversions (colors d') + k = inversions (colors d)
      \<and> (k = 0 \<longrightarrow> d' = d \<and> no_dark_light d i)"
proof (induction d c i rule: pass_right.induct)
  case (1 d c i)
  let ?n = "total_count d"
  have sp: "size_t_pred ?n = ?n - 1" using "1.prems" by (simp add: size_t_pred_def)
  show ?case
  proof (cases "i < ?n - 1")
    case False
    then have "pass_right d c i = Inr (d, c + int 0)"
      using sp by (subst pass_right.simps) simp
    moreover have "no_dark_light d i" using False by (auto simp: no_dark_light_def)
    ultimately show ?thesis by (intro exI [of _ d] exI [of _ 0]) simp
  next
    case True
    then have i1: "i + 1 < ?n" and i0: "i < ?n" by simp_all
    have g0: "get d i = Inr (colors d ! i)" using i0 by (rule get_in_range)
    have g1: "get d (i + 1) = Inr (colors d ! (i + 1))" using i1 by (rule get_in_range)
    have lt: "i < size_t_pred ?n" using True sp by simp
    show ?thesis
    proof (cases "colors d ! i = DISK_DARK \<and> colors d ! (i + 1) = DISK_LIGHT")
      case dl: True
      then obtain d' where sw: "swap d i = Inr d'"
        and ms: "mset (colors d') = mset (colors d)"
        and iv: "inversions (colors d') + 1 = inversions (colors d)"
        using swap_step [OF i1] by blast
      have n': "0 < total_count d'" using total_count_mset [OF ms] "1.prems" by simp
      have unf: "pass_right d c i = pass_right d' (c + 1) (i + 1)"
        using lt g0 g1 dl sw by (subst pass_right.simps) simp
      from "1.IH"(1) [OF lt g0 _ g1 _ sw n'] dl
      obtain d'' k where r: "pass_right d' (c + 1) (i + 1) = Inr (d'', c + 1 + int k)"
        and ms': "mset (colors d'') = mset (colors d')"
        and iv': "inversions (colors d'') + k = inversions (colors d')"
        by auto
      have "pass_right d c i = Inr (d'', c + int (Suc k))" using unf r by simp
      moreover have "mset (colors d'') = mset (colors d)" using ms ms' by simp
      moreover have "inversions (colors d'') + Suc k = inversions (colors d)" using iv iv' by simp
      ultimately show ?thesis by blast
    next
      case ndl: False
      have unf: "pass_right d c i = pass_right d c (i + 1)"
        using lt g0 g1 ndl by (subst pass_right.simps) auto
      have "\<exists>d' k. pass_right d c (i + 1) = Inr (d', c + int k) \<and>
              mset (colors d') = mset (colors d) \<and>
              inversions (colors d') + k = inversions (colors d) \<and>
              (k = 0 \<longrightarrow> d' = d \<and> no_dark_light d (i + 1))"
      proof (cases "colors d ! i = DISK_DARK")
        case True
        with ndl have "colors d ! (i + 1) \<noteq> DISK_LIGHT" by simp
        from "1.IH"(2) [OF lt g0 True g1 this "1.prems"] show ?thesis .
      next
        case False
        from "1.IH"(3) [OF lt g0 False "1.prems"] show ?thesis .
      qed
      then obtain d' k where r: "pass_right d c (i + 1) = Inr (d', c + int k)"
        and ms: "mset (colors d') = mset (colors d)"
        and iv: "inversions (colors d') + k = inversions (colors d)"
        and z: "k = 0 \<longrightarrow> d' = d \<and> no_dark_light d (i + 1)"
        by blast
      have "k = 0 \<longrightarrow> d' = d \<and> no_dark_light d i"
        using z ndl no_dark_light_step [of d i] by blast
      with unf r ms iv show ?thesis by metis
    qed
  qed
qed

lemma pass_right_empty: "total_count d = 0 \<Longrightarrow> pass_right d c 0 = Inl AssertionFailed"
  by (subst pass_right.simps) (simp add: size_t_pred_def SIZE_MAX_def get_def is_index_def)

lemma pass_left_run:
  "j < total_count d \<Longrightarrow>
   \<exists>d' k. pass_left d c j = Inr (d', c + int k) \<and> mset (colors d') = mset (colors d)
      \<and> inversions (colors d') + k = inversions (colors d)"
proof (induction d c j rule: pass_left.induct)
  case (1 d c j)
  let ?n = "total_count d"
  show ?case
  proof (cases "0 < j")
    case False
    then have "pass_left d c j = Inr (d, c + int 0)"
      by (subst pass_left.simps) simp
    then show ?thesis by (intro exI [of _ d] exI [of _ 0]) simp
  next
    case True
    then have j1: "j - 1 + 1 < ?n" and j1': "j - 1 < ?n" using "1.prems" by simp_all
    have g0: "get d j = Inr (colors d ! j)" using "1.prems" by (rule get_in_range)
    have g1: "get d (j - 1) = Inr (colors d ! (j - 1))" using j1' by (rule get_in_range)
    have jj: "j - 1 + 1 = j" using True by simp
    show ?thesis
    proof (cases "colors d ! j = DISK_LIGHT \<and> colors d ! (j - 1) = DISK_DARK")
      case dl: True
      then obtain d' where sw: "swap d (j - 1) = Inr d'"
        and ms: "mset (colors d') = mset (colors d)"
        and iv: "inversions (colors d') + 1 = inversions (colors d)"
        using swap_step [OF j1] jj by auto
      have n': "j - 1 < total_count d'" using total_count_mset [OF ms] j1' by simp
      have unf: "pass_left d c j = pass_left d' (c + 1) (j - 1)"
        using True g0 g1 dl sw by (subst pass_left.simps) simp
      from "1.IH"(1) [OF True g0 _ g1 _ sw n'] dl
      obtain d'' k where r: "pass_left d' (c + 1) (j - 1) = Inr (d'', c + 1 + int k)"
        and ms': "mset (colors d'') = mset (colors d')"
        and iv': "inversions (colors d'') + k = inversions (colors d')"
        by auto
      have "pass_left d c j = Inr (d'', c + int (Suc k))" using unf r by simp
      moreover have "mset (colors d'') = mset (colors d)" using ms ms' by simp
      moreover have "inversions (colors d'') + Suc k = inversions (colors d)" using iv iv' by simp
      ultimately show ?thesis by blast
    next
      case ndl: False
      have unf: "pass_left d c j = pass_left d c (j - 1)"
        using True g0 g1 ndl by (subst pass_left.simps) auto
      have "\<exists>d' k. pass_left d c (j - 1) = Inr (d', c + int k) \<and>
              mset (colors d') = mset (colors d) \<and>
              inversions (colors d') + k = inversions (colors d)"
      proof (cases "colors d ! j = DISK_LIGHT")
        case l: True
        with ndl have "colors d ! (j - 1) \<noteq> DISK_DARK" by simp
        from "1.IH"(2) [OF True g0 l g1 this j1'] show ?thesis .
      next
        case False
        from "1.IH"(3) [OF True g0 False j1'] show ?thesis .
      qed
      with unf show ?thesis by simp
    qed
  qed
qed


subsection \<open>Rows with as many light as dark disks\<close>

lemma length_count_colors:
  "length cs = count_list cs DISK_LIGHT + count_list cs DISK_DARK"
proof (induction cs)
  case Nil
  show ?case by simp
next
  case (Cons x cs)
  then show ?case by (cases x) simp_all
qed

lemma count_list_replicate_colors:
  "count_list (replicate n x) y = (if x = y then n else 0)"
  by (induction n) auto

lemma balanced_total_count: "balanced d n \<Longrightarrow> total_count d = 2 * n"
  by (simp add: balanced_def total_count_def length_count_colors [of "colors d"])

lemma balanced_mset:
  "mset (colors d') = mset (colors d) \<Longrightarrow> balanced d n \<Longrightarrow> balanced d' n"
  unfolding balanced_def by (metis count_mset)

lemma all_dark_after:
  assumes nd: "no_dark_light d 0" and i: "colors d ! i = DISK_DARK"
  shows "i \<le> j \<Longrightarrow> j < total_count d \<Longrightarrow> colors d ! j = DISK_DARK"
proof (induction j)
  case 0
  then show ?case using i by simp
next
  case (Suc j)
  show ?case
  proof (cases "i = Suc j")
    case True
    then show ?thesis using i by simp
  next
    case False
    then have "i \<le> j" "j < total_count d" using Suc.prems by simp_all
    then have "colors d ! j = DISK_DARK" by (rule Suc.IH)
    moreover have "j + 1 < total_count d" using Suc.prems by simp
    ultimately have "colors d ! (j + 1) \<noteq> DISK_LIGHT"
      using nd unfolding no_dark_light_def by blast
    then show ?thesis by (cases "colors d ! Suc j") simp_all
  qed
qed

lemma no_dark_light_sorted:
  assumes nd: "no_dark_light d 0" and b: "balanced d n" and n: "0 < n"
  shows "first_half_light d"
proof -
  let ?cs = "colors d"
  have len: "length ?cs = 2 * n" using balanced_total_count [OF b] by (simp add: total_count_def)
  have "?cs ! i = DISK_LIGHT" if i: "i < n" for i
  proof (rule ccontr)
    assume "?cs ! i \<noteq> DISK_LIGHT"
    then have dk: "?cs ! i = DISK_DARK" by (cases "?cs ! i") simp_all
    have "DISK_LIGHT \<notin> set (drop i ?cs)"
    proof
      assume "DISK_LIGHT \<in> set (drop i ?cs)"
      then obtain k where k: "k < length (drop i ?cs)" "drop i ?cs ! k = DISK_LIGHT"
        by (auto simp: in_set_conv_nth)
      then have "i + k < total_count d" by (simp add: total_count_def)
      then have "?cs ! (i + k) = DISK_DARK"
        using all_dark_after [OF nd dk, of "i + k"] by simp
      then show False using k by simp
    qed
    then have "count_list (drop i ?cs) DISK_LIGHT = 0" by simp
    then have "count_list ?cs DISK_LIGHT = count_list (take i ?cs) DISK_LIGHT"
      using count_list_append [of "take i ?cs" "drop i ?cs" DISK_LIGHT] by simp
    also have "\<dots> \<le> length (take i ?cs)" by (rule count_le_length)
    also have "\<dots> \<le> i" by simp
    finally show False using b i by (simp add: balanced_def)
  qed
  then show ?thesis using n len by (simp add: first_half_light_def total_count_def)
qed

lemma sorted_balanced_colors:
  assumes s: "first_half_light d" and b: "balanced d n"
  shows "colors d = replicate n DISK_LIGHT @ replicate n DISK_DARK"
proof -
  let ?cs = "colors d"
  have len: "length ?cs = 2 * n" using balanced_total_count [OF b] by (simp add: total_count_def)
  have "\<forall>y \<in> set (take n ?cs). y = DISK_LIGHT"
    using s len by (auto simp: first_half_light_def total_count_def in_set_conv_nth)
  then have "replicate (length (take n ?cs)) DISK_LIGHT = take n ?cs"
    by (rule replicate_length_same)
  then have t: "take n ?cs = replicate n DISK_LIGHT" using len by simp
  have "count_list (take n ?cs) DISK_LIGHT + count_list (drop n ?cs) DISK_LIGHT = n"
    using count_list_append [of "take n ?cs" "drop n ?cs" DISK_LIGHT] b
    by (simp add: balanced_def)
  then have "count_list (drop n ?cs) DISK_LIGHT = 0"
    using t by (simp add: count_list_replicate_colors)
  then have "DISK_LIGHT \<notin> set (drop n ?cs)" by (simp add: count_list_0_iff)
  then have "\<forall>y \<in> set (drop n ?cs). y = DISK_DARK"
    by (metis disk_color.exhaust)
  then have "replicate (length (drop n ?cs)) DISK_DARK = drop n ?cs"
    by (rule replicate_length_same)
  then have dr: "drop n ?cs = replicate n DISK_DARK" using len by simp
  have "?cs = take n ?cs @ drop n ?cs" by simp
  then show ?thesis using t dr by simp
qed

lemma inversions_light_dark:
  "inversions (replicate n DISK_LIGHT @ replicate m DISK_DARK) = 0"
  by (induction n) (simp_all, induction m, simp_all)

lemma sorted_balanced_state:
  assumes "first_half_light d" "balanced d n"
  shows "d = \<lparr>colors = replicate n DISK_LIGHT @ replicate n DISK_DARK\<rparr>"
    and "inversions (colors d) = 0"
  using sorted_balanced_colors [OF assms] by (simp_all add: inversions_light_dark)

subsection \<open>The outer loops on balanced rows\<close>

lemma sort_left_to_right_loop_balanced:
  assumes n: "0 < n" "n < 2 ^ 32"
  shows "balanced d n \<Longrightarrow>
     sort_left_to_right_loop d c =
       Some (Inr (\<lparr>colors = replicate n DISK_LIGHT @ replicate n DISK_DARK\<rparr>,
                  c + int (inversions (colors d))))"
proof (induction "inversions (colors d)" arbitrary: d c rule: less_induct)
  case less
  have tc: "total_count d = 2 * n" using less.prems by (rule balanced_total_count)
  then have srt: "is_sorted d = Some (Inr (first_half_light d))"
    using n by (intro is_sorted_small) simp
  show ?case
  proof (cases "first_half_light d")
    case True
    have "sort_left_to_right_loop d c = Some (Inr (d, c))"
      using srt True by (subst sort_left_to_right_loop.simps) simp
    then show ?thesis using sorted_balanced_state [OF True less.prems] by simp
  next
    case False
    from pass_right_run [of d c 0] tc n
    obtain d' k where r: "pass_right d c 0 = Inr (d', c + int k)"
      and ms: "mset (colors d') = mset (colors d)"
      and iv: "inversions (colors d') + k = inversions (colors d)"
      and z: "k = 0 \<longrightarrow> d' = d \<and> no_dark_light d 0"
      by auto
    have "k \<noteq> 0" using z False no_dark_light_sorted [OF _ less.prems n(1)] by blast
    then have dec: "inversions (colors d') < inversions (colors d)" using iv by simp
    have b': "balanced d' n" using ms less.prems by (rule balanced_mset)
    have "sort_left_to_right_loop d c = sort_left_to_right_loop d' (c + int k)"
      using srt False r by (subst sort_left_to_right_loop.simps) simp
    also have "\<dots> = Some (Inr (\<lparr>colors = replicate n DISK_LIGHT @ replicate n DISK_DARK\<rparr>,
                  c + int k + int (inversions (colors d'))))"
      using dec b' by (rule less.hyps)
    finally show ?thesis using iv by (simp add: add.commute)
  qed
qed

lemma sort_lawnmower_loop_balanced:
  assumes n: "0 < n" "n < 2 ^ 32"
  shows "balanced d n \<Longrightarrow>
     sort_lawnmower_loop d c =
       Some (Inr (\<lparr>colors = replicate n DISK_LIGHT @ replicate n DISK_DARK\<rparr>,
                  c + int (inversions (colors d))))"
proof (induction "inversions (colors d)" arbitrary: d c rule: less_induct)
  case less
  have tc: "total_count d = 2 * n" using less.prems by (rule balanced_total_count)
  then have srt: "is_sorted d = Some (Inr (first_half_light d))"
    using n by (intro is_sorted_small) simp
  show ?case
  proof (cases "first_half_light d")
    case True
    have "sort_lawnmower_loop d c = Some (Inr (d, c))"
      using srt True by (subst sort_lawnmower_loop.simps) simp
    then show ?thesis using sorted_balanced_state [OF True less.prems] by simp
  next
    case False
    from pass_right_run [of d c 0] tc n
    obtain d' k where r: "pass_right d c 0 = Inr (d', c + int k)"
      and ms: "mset (colors d') = mset (colors d)"
      and iv: "inversions (colors d') + k = inversions (colors d)"
      and z: "k = 0 \<longrightarrow> d' = d \<and> no_dark_light d 0"
      by auto
    have "k \<noteq> 0" using z False no_dark_light_sorted [OF _ less.prems n(1)] by blast
    have tc': "total_count d' = 2 * n" using total_count_mset [OF ms] tc by simp
    then have sp: "size_t_pred (total_count d') < total_count d'"
      using n by (simp add: size_t_pred_def)
    from pass_left_run [OF sp, of "c + int k"]
    obtain d'' k' where l: "pass_left d' (c + int k) (size_t_pred (total_count d')) =
          Inr (d'', c + int k + int k')"
      and ms': "mset (colors d'') = mset (colors d')"
      and iv': "inversions (colors d'') + k' = inversions (colors d')"
      by auto
    have dec: "inversions (colors d'') < inversions (colors d)"
      using iv iv' \<open>k \<noteq> 0\<close> by simp
    have b'': "balanced d'' n"
      using ms' ms less.prems by (metis balanced_mset)
    have "sort_lawnmower_loop d c = sort_lawnmower_loop d'' (c + int k + int k')"
      using srt False r l by (subst sort_lawnmower_loop.simps) simp
    also have "\<dots> = Some (Inr (\<lparr>colors = replicate n DISK_LIGHT @ replicate n DISK_DARK\<rparr>,
                  c + int k + int k' + int (inversions (colors d''))))"
      using dec b'' by (rule less.hyps)
    finally show ?thesis using iv iv' by (simp add: add.commute add.left_commute)
  qed
qed


subsection \<open>The canonical row\<close>

lemma length_alternating: "length (concat (replicate k [a, b])) = 2 * k"
  by (induction k) simp_all

lemma alternating_snoc:
  "concat (replicate (Suc k) xs) = concat (replicate k xs) @ xs"
  by (induction k) simp_all

lemma disk_state_loop_alternating:
  "disk_state_loop (concat (replicate k [DISK_DARK, DISK_LIGHT]) @ replicate (2 * m) DISK_LIGHT)
       (2 * k) =
     concat (replicate (k + m) [DISK_DARK, DISK_LIGHT])"
proof (induction m arbitrary: k)
  case 0
  show ?case by (subst disk_state_loop.simps) (simp add: length_alternating)
next
  case (Suc m)
  let ?pre = "concat (replicate k [DISK_DARK, DISK_LIGHT])"
  have "disk_state_loop (?pre @ replicate (2 * Suc m) DISK_LIGHT) (2 * k) =
        disk_state_loop ((?pre @ replicate (2 * Suc m) DISK_LIGHT)[2 * k := DISK_DARK]) (2 * k + 2)"
    by (subst disk_state_loop.simps) (simp add: length_alternating)
  also have "(?pre @ replicate (2 * Suc m) DISK_LIGHT)[2 * k := DISK_DARK] =
        concat (replicate (Suc k) [DISK_DARK, DISK_LIGHT]) @ replicate (2 * m) DISK_LIGHT"
  proof -
    have "(?pre @ replicate (2 * Suc m) DISK_LIGHT)[2 * k := DISK_DARK] =
          ?pre @ (DISK_LIGHT # DISK_LIGHT # replicate (2 * m) DISK_LIGHT)[0 := DISK_DARK]"
      by (simp add: list_update_append length_alternating)
    also have "\<dots> = (?pre @ [DISK_DARK, DISK_LIGHT]) @ replicate (2 * m) DISK_LIGHT"
      by simp
    finally show ?thesis by (simp only: alternating_snoc)
  qed
  also have "disk_state_loop \<dots> (2 * k + 2) = concat (replicate (Suc k + m) [DISK_DARK, DISK_LIGHT])"
    using Suc.IH [of "Suc k"] by simp
  finally show ?case by simp
qed

lemma size_t_times_small: "a * b < 2 ^ 64 \<Longrightarrow> size_t_times a b = a * b"
  by (simp add: size_t_times_def SIZE_MAX_def)

lemma disk_state_alternating:
  assumes "0 < n" "n < 2 ^ 63"
  shows "disk_state n = Inr \<lparr>colors = concat (replicate n [DISK_DARK, DISK_LIGHT])\<rparr>"
proof -
  have "size_t_times n 2 = 2 * n" using assms(2) by (simp add: size_t_times_small)
  then show ?thesis
    using disk_state_loop_alternating [of 0 n] assms(1) by (simp add: disk_state_def)
qed

text \<open>The product of the constructor wraps: for \<open>2 ^ 63\<close> it builds the empty row.\<close>

lemma disk_state_wraps: "disk_state 9223372036854775808 = Inr \<lparr>colors = []\<rparr>"
proof -
  have "size_t_times 9223372036854775808 2 = 0"
    by (simp add: size_t_times_def SIZE_MAX_def)
  moreover have "disk_state_loop [] 0 = []" by (subst disk_state_loop.simps) simp
  ultimately show ?thesis by (simp add: disk_state_def)
qed

lemma count_alternating:
  "count_list (concat (replicate n [DISK_DARK, DISK_LIGHT])) c = n"
  by (induction n) (simp, cases c, simp_all)

lemma balanced_alternating:
  "balanced \<lparr>colors = concat (replicate n [DISK_DARK, DISK_LIGHT])\<rparr> n"
  by (simp add: balanced_def count_alternating)

lemma inversions_alternating_double:
  "2 * inversions (concat (replicate n [DISK_DARK, DISK_LIGHT])) = n * (n + 1)"
  by (induction n) (simp_all add: count_alternating)

lemma inversions_alternating:
  "inversions (concat (replicate n [DISK_DARK, DISK_LIGHT])) = n * (n + 1) div 2"
  using inversions_alternating_double [of n] by simp

subsection \<open>Rows beyond the range of the 32-bit index\<close>

lemma sort_left_to_right_loop_returns:
  assumes "sort_left_to_right_loop d c = Some y"
  shows "total_count d div 2 < 2 ^ 32"
proof (rule sort_left_to_right_loop.raw_induct
         [where P = "\<lambda>d c y. total_count d div 2 < 2 ^ 32", OF _ assms])
  fix f :: "disk_state \<Rightarrow> int \<Rightarrow> (error + disk_state \<times> int) option" and d c y
  assume IH: "\<And>d c y. f d c = Some y \<Longrightarrow> total_count d div 2 < 2 ^ 32"
    and eq: "(case is_sorted d of
                None \<Rightarrow> None
              | Some (Inl e) \<Rightarrow> Some (Inl e)
              | Some (Inr b) \<Rightarrow>
                  if b then Some (Inr (d, c))
                  else (case pass_right d c 0 of
                          Inl e \<Rightarrow> Some (Inl e)
                        | Inr (d', cnt') \<Rightarrow> f d' cnt')) = Some y"
  show "total_count d div 2 < 2 ^ 32"
  proof (rule ccontr)
    assume "\<not> total_count d div 2 < 2 ^ 32"
    then have big: "2 ^ 32 \<le> total_count d div 2" by simp
    then have pos: "0 < total_count d" by (cases "total_count d") simp_all
    from is_sorted_large [OF big] eq have srt: "is_sorted d = Some (Inr False)" by auto
    from pass_right_run [OF pos, of c 0]
    obtain d' k where r: "pass_right d c 0 = Inr (d', c + int k)"
      and ms: "mset (colors d') = mset (colors d)"
      by blast
    have "f d' (c + int k) = Some y" using eq srt r by simp
    then have "total_count d' div 2 < 2 ^ 32" by (rule IH)
    then show False using total_count_mset [OF ms] big by simp
  qed
qed

lemma sort_lawnmower_loop_returns:
  assumes "sort_lawnmower_loop d c = Some y"
  shows "total_count d div 2 < 2 ^ 32"
proof (rule sort_lawnmower_loop.raw_induct
         [where P = "\<lambda>d c y. total_count d div 2 < 2 ^ 32", OF _ assms])
  fix f :: "disk_state \<Rightarrow> int \<Rightarrow> (error + disk_state \<times> int) option" and d c y
  assume IH: "\<And>d c y. f d c = Some y \<Longrightarrow> total_count d div 2 < 2 ^ 32"
    and eq: "(case is_sorted d of
                None \<Rightarrow> None
              | Some (Inl e) \<Rightarrow> Some (Inl e)
              | Some (Inr b) \<Rightarrow>
                  if b then Some (Inr (d, c))
                  else (case pass_right d c 0 of
                          Inl e \<Rightarrow> Some (Inl e)
                        | Inr (d', cnt') \<Rightarrow>
                            (case pass_left d' cnt' (size_t_pred (total_count d')) of
                               Inl e \<Rightarrow> Some (Inl e)
                             | Inr (d'', cnt'') \<Rightarrow> f d'' cnt''))) = Some y"
  show "total_count d div 2 < 2 ^ 32"
  proof (rule ccontr)
    assume "\<not> total_count d div 2 < 2 ^ 32"
    then have big: "2 ^ 32 \<le> total_count d div 2" by simp
    then have pos: "0 < total_count d" by (cases "total_count d") simp_all
    from is_sorted_large [OF big] eq have srt: "is_sorted d = Some (Inr False)" by auto
    from pass_right_run [OF pos, of c 0]
    obtain d' k where r: "pass_right d c 0 = Inr (d', c + int k)"
      and ms: "mset (colors d') = mset (colors d)"
      by blast
    have tc': "total_count d' = total_count d" using ms by (rule total_count_mset)
    then have "size_t_pred (total_count d') < total_count d'"
      using pos by (simp add: size_t_pred_def)
    from pass_left_run [OF this, of "c + int k"]
    obtain d'' k' where l: "pass_left d' (c + int k) (size_t_pred (total_count d')) =
          Inr (d'', c + int k + int k')"
      and ms': "mset (colors d'') = mset (colors d')"
      by blast
    have "f d'' (c + int k + int k') = Some y" using eq srt r l by simp
    then have "total_count d'' div 2 < 2 ^ 32" by (rule IH)
    then show False using total_count_mset [OF ms'] tc' big by simp
  qed
qed

lemma sort_left_to_right_loop_diverges:
  "2 ^ 32 \<le> total_count d div 2 \<Longrightarrow> sort_left_to_right_loop d c = None"
  using sort_left_to_right_loop_returns [of d c] by (cases "sort_left_to_right_loop d c") auto

lemma sort_lawnmower_loop_diverges:
  "2 ^ 32 \<le> total_count d div 2 \<Longrightarrow> sort_lawnmower_loop d c = None"
  using sort_lawnmower_loop_returns [of d c] by (cases "sort_lawnmower_loop d c") auto

subsection \<open>What a returning sort preserves\<close>

lemma sort_left_to_right_loop_mset:
  assumes "sort_left_to_right_loop d c = Some y"
  shows "\<forall>d' c'. y = Inr (d', c') \<longrightarrow> mset (colors d') = mset (colors d)"
proof (rule sort_left_to_right_loop.raw_induct
         [where P = "\<lambda>d c y. \<forall>d' c'. y = Inr (d', c') \<longrightarrow> mset (colors d') = mset (colors d)",
          OF _ assms])
  fix f :: "disk_state \<Rightarrow> int \<Rightarrow> (error + disk_state \<times> int) option" and d c y
  assume IH: "\<And>d c y. f d c = Some y \<Longrightarrow>
                \<forall>d' c'. y = Inr (d', c') \<longrightarrow> mset (colors d') = mset (colors d)"
    and eq: "(case is_sorted d of
                None \<Rightarrow> None
              | Some (Inl e) \<Rightarrow> Some (Inl e)
              | Some (Inr b) \<Rightarrow>
                  if b then Some (Inr (d, c))
                  else (case pass_right d c 0 of
                          Inl e \<Rightarrow> Some (Inl e)
                        | Inr (d', cnt') \<Rightarrow> f d' cnt')) = Some y"
  show "\<forall>d' c'. y = Inr (d', c') \<longrightarrow> mset (colors d') = mset (colors d)"
  proof (intro allI impI)
    fix d' c' assume y: "y = Inr (d', c')"
    from eq y obtain b where srt: "is_sorted d = Some (Inr b)"
      by (auto split: option.splits sum.splits)
    show "mset (colors d') = mset (colors d)"
    proof (cases b)
      case True
      then show ?thesis using eq srt y by simp
    next
      case False
      show ?thesis
      proof (cases "total_count d = 0")
        case True
        then show ?thesis using eq srt False y pass_right_empty [of d c] by simp
      next
        case nz: False
        then have "0 < total_count d" by simp
        from pass_right_run [OF this, of c 0]
        obtain d1 k where r: "pass_right d c 0 = Inr (d1, c + int k)"
          and ms: "mset (colors d1) = mset (colors d)"
          by blast
        have "f d1 (c + int k) = Some y" using eq srt False r by simp
        from IH [OF this] y ms show ?thesis by simp
      qed
    qed
  qed
qed

lemma sort_lawnmower_loop_mset:
  assumes "sort_lawnmower_loop d c = Some y"
  shows "\<forall>d' c'. y = Inr (d', c') \<longrightarrow> mset (colors d') = mset (colors d)"
proof (rule sort_lawnmower_loop.raw_induct
         [where P = "\<lambda>d c y. \<forall>d' c'. y = Inr (d', c') \<longrightarrow> mset (colors d') = mset (colors d)",
          OF _ assms])
  fix f :: "disk_state \<Rightarrow> int \<Rightarrow> (error + disk_state \<times> int) option" and d c y
  assume IH: "\<And>d c y. f d c = Some y \<Longrightarrow>
                \<forall>d' c'. y = Inr (d', c') \<longrightarrow> mset (colors d') = mset (colors d)"
    and eq: "(case is_sorted d of
                None \<Rightarrow> None
              | Some (Inl e) \<Rightarrow> Some (Inl e)
              | Some (Inr b) \<Rightarrow>
                  if b then Some (Inr (d, c))
                  else (case pass_right d c 0 of
                          Inl e \<Rightarrow> Some (Inl e)
                        | Inr (d', cnt') \<Rightarrow>
                            (case pass_left d' cnt' (size_t_pred (total_count d')) of
                               Inl e \<Rightarrow> Some (Inl e)
                             | Inr (d'', cnt'') \<Rightarrow> f d'' cnt''))) = Some y"
  show "\<forall>d' c'. y = Inr (d', c') \<longrightarrow> mset (colors d') = mset (colors d)"
  proof (intro allI impI)
    fix d' c' assume y: "y = Inr (d', c')"
    from eq y obtain b where srt: "is_sorted d = Some (Inr b)"
      by (auto split: option.splits sum.splits)
    show "mset (colors d') = mset (colors d)"
    proof (cases b)
      case True
      then show ?thesis using eq srt y by simp
    next
      case False
      show ?thesis
      proof (cases "total_count d = 0")
        case True
        then show ?thesis using eq srt False y pass_right_empty [of d c] by simp
      next
        case nz: False
        then have pos: "0 < total_count d" by simp
        from pass_right_run [OF this, of c 0]
        obtain d1 k where r: "pass_right d c 0 = Inr (d1, c + int k)"
          and ms: "mset (colors d1) = mset (colors d)"
          by blast
        have "size_t_pred (total_count d1) < total_count d1"
          using pos total_count_mset [OF ms] by (simp add: size_t_pred_def)
        from pass_left_run [OF this, of "c + int k"]
        obtain d2 k' where l: "pass_left d1 (c + int k) (size_t_pred (total_count d1)) =
              Inr (d2, c + int k + int k')"
          and ms': "mset (colors d2) = mset (colors d1)"
          by blast
        have "f d2 (c + int k + int k') = Some y" using eq srt False r l by simp
        from IH [OF this] y ms ms' show ?thesis by simp
      qed
    qed
  qed
qed

section \<open>The algorithms within the range of the 32-bit types\<close>

lemma sort_left_to_right_balanced:
  assumes "0 < n" "n < 2 ^ 32" "balanced d n"
  shows "sort_left_to_right d =
     Some (Inr \<lparr>after = \<lparr>colors = replicate n DISK_LIGHT @ replicate n DISK_DARK\<rparr>,
                swap_count = of_nat (inversions (colors d))\<rparr>)"
  using sort_left_to_right_loop_balanced [OF assms, of 0]
  by (simp add: sort_left_to_right_def make_sorted_disks_def)

lemma sort_lawnmower_balanced:
  assumes "0 < n" "n < 2 ^ 32" "balanced d n"
  shows "sort_lawnmower d =
     Some (Inr \<lparr>after = \<lparr>colors = replicate n DISK_LIGHT @ replicate n DISK_DARK\<rparr>,
                swap_count = of_nat (inversions (colors d))\<rparr>)"
  using sort_lawnmower_loop_balanced [OF assms, of 0]
  by (simp add: sort_lawnmower_def make_sorted_disks_def)

lemma first_half_light_sorted_row:
  "0 < n \<Longrightarrow> first_half_light \<lparr>colors = replicate n DISK_LIGHT @ replicate n DISK_DARK\<rparr>"
  by (simp add: first_half_light_def nth_append)

lemma get_sorted_row:
  "get \<lparr>colors = replicate n DISK_LIGHT @ replicate n DISK_DARK\<rparr> i =
     (if i < n then Inr DISK_LIGHT else if i < 2 * n then Inr DISK_DARK else Inl AssertionFailed)"
  by (simp add: get_def is_index_def nth_append)

lemma is_sorted_sorted_row:
  assumes "0 < n" "n < 2 ^ 32"
  shows "is_sorted \<lparr>colors = replicate n DISK_LIGHT @ replicate n DISK_DARK\<rparr> = Some (Inr True)"
proof -
  let ?d = "\<lparr>colors = replicate n DISK_LIGHT @ replicate n DISK_DARK\<rparr>"
  have "total_count ?d div 2 < 2 ^ 32" using assms by simp
  then show ?thesis using first_half_light_sorted_row [OF assms(1)] by (simp add: is_sorted_small)
qed

text \<open>
  Up to \<open>2 ^ 32 - 1\<close> pairs, both algorithms turn the row built by the constructor into
  \<open>n\<close> light disks followed by \<open>n\<close> dark disks, on which \<open>is_sorted\<close> holds.
\<close>

theorem sort_canonical_row:
  assumes "1 \<le> n" "n < 2 ^ 32"
  shows "\<exists>d rl rm. disk_state n = Inr d \<and>
     sort_left_to_right d = Some (Inr rl) \<and> sort_lawnmower d = Some (Inr rm) \<and>
     after rl = \<lparr>colors = replicate n DISK_LIGHT @ replicate n DISK_DARK\<rparr> \<and>
     after rm = \<lparr>colors = replicate n DISK_LIGHT @ replicate n DISK_DARK\<rparr> \<and>
     total_count (after rl) = 2 * n \<and>
     (\<forall>i < n. get (after rl) i = Inr DISK_LIGHT) \<and>
     (\<forall>i. n \<le> i \<and> i < 2 * n \<longrightarrow> get (after rl) i = Inr DISK_DARK) \<and>
     is_sorted (after rl) = Some (Inr True)"
proof -
  let ?d = "\<lparr>colors = concat (replicate n [DISK_DARK, DISK_LIGHT])\<rparr>"
  have n: "0 < n" using assms(1) by simp
  have n63: "n < 2 ^ 63" using assms(2) by simp
  have "disk_state n = Inr ?d" using n n63 by (rule disk_state_alternating)
  moreover note sort_left_to_right_balanced [OF n assms(2) balanced_alternating]
    sort_lawnmower_balanced [OF n assms(2) balanced_alternating]
    is_sorted_sorted_row [OF n assms(2)]
  ultimately show ?thesis by (simp add: get_sorted_row)
qed

theorem sort_canonical_row_witness:
  "\<exists>d rl rm. disk_state 3 = Inr d \<and>
     sort_left_to_right d = Some (Inr rl) \<and> sort_lawnmower d = Some (Inr rm) \<and>
     after rl = \<lparr>colors = replicate 3 DISK_LIGHT @ replicate 3 DISK_DARK\<rparr> \<and>
     after rm = \<lparr>colors = replicate 3 DISK_LIGHT @ replicate 3 DISK_DARK\<rparr> \<and>
     total_count (after rl) = 2 * 3 \<and>
     (\<forall>i < 3. get (after rl) i = Inr DISK_LIGHT) \<and>
     (\<forall>i. 3 \<le> i \<and> i < 2 * 3 \<longrightarrow> get (after rl) i = Inr DISK_DARK) \<and>
     is_sorted (after rl) = Some (Inr True)"
  by (rule sort_canonical_row) simp_all

text \<open>
  Up to \<open>2 ^ 32 - 1\<close> pairs, the outer loops of both algorithms leave every balanced row
  after finitely many iterations, in a state where \<open>is_sorted\<close> holds.
\<close>

theorem sort_terminates_on_balanced_rows:
  assumes "1 \<le> n" "n < 2 ^ 32" "balanced d n"
  shows "\<exists>dl cl dm cm.
     sort_left_to_right_loop d 0 = Some (Inr (dl, cl)) \<and> is_sorted dl = Some (Inr True) \<and>
     sort_lawnmower_loop d 0 = Some (Inr (dm, cm)) \<and> is_sorted dm = Some (Inr True)"
proof -
  have n: "0 < n" using assms(1) by simp
  show ?thesis
    using sort_left_to_right_loop_balanced [OF n assms(2,3), of 0]
      sort_lawnmower_loop_balanced [OF n assms(2,3), of 0]
      is_sorted_sorted_row [OF n assms(2)]
    by simp
qed

text \<open>
  Up to \<open>2 ^ 32 - 1\<close> pairs, both algorithms report the same count on the row built by
  the constructor.
\<close>

theorem sorts_report_equal_swap_counts:
  assumes "1 \<le> n" "n < 2 ^ 32"
  shows "\<exists>d rl rm. disk_state n = Inr d \<and>
     sort_left_to_right d = Some (Inr rl) \<and> sort_lawnmower d = Some (Inr rm) \<and>
     swap_count rl = swap_count rm"
proof -
  let ?d = "\<lparr>colors = concat (replicate n [DISK_DARK, DISK_LIGHT])\<rparr>"
  have n: "0 < n" using assms(1) by simp
  have n63: "n < 2 ^ 63" using assms(2) by simp
  have "disk_state n = Inr ?d" using n n63 by (rule disk_state_alternating)
  moreover note sort_left_to_right_balanced [OF n assms(2) balanced_alternating]
    sort_lawnmower_balanced [OF n assms(2) balanced_alternating]
  ultimately show ?thesis by simp
qed

lemma triangle_bound: "(n::nat) \<le> n * (n + 1) div 2"
proof -
  have "2 * n \<le> n * (n + 1)" by (cases n) simp_all
  then have "2 * n div 2 \<le> n * (n + 1) div 2" by (rule div_le_mono)
  then show ?thesis by simp
qed

text \<open>
  As long as \<open>n * (n + 1) div 2\<close> fits the 32-bit count, both algorithms report exactly
  \<open>n * (n + 1) div 2\<close> swaps on the row built by the constructor.
\<close>

theorem swap_count_canonical_row:
  assumes "1 \<le> n" "n * (n + 1) div 2 < 2 ^ 32"
  shows "\<exists>d rl rm. disk_state n = Inr d \<and>
     sort_left_to_right d = Some (Inr rl) \<and> sort_lawnmower d = Some (Inr rm) \<and>
     unat (swap_count rl) = n * (n + 1) div 2 \<and> unat (swap_count rm) = n * (n + 1) div 2"
proof -
  let ?d = "\<lparr>colors = concat (replicate n [DISK_DARK, DISK_LIGHT])\<rparr>"
  have n: "0 < n" using assms(1) by simp
  have n32: "n < 2 ^ 32" using triangle_bound [of n] assms(2) by simp
  then have n63: "n < 2 ^ 63" by simp
  have u: "unat (of_nat (n * (n + 1) div 2) :: 32 word) = n * (n + 1) div 2"
    using assms(2) by (simp add: unat_of_nat)
  have "disk_state n = Inr ?d" using n n63 by (rule disk_state_alternating)
  moreover note sort_left_to_right_balanced [OF n n32 balanced_alternating]
    sort_lawnmower_balanced [OF n n32 balanced_alternating]
  ultimately show ?thesis using u by (simp add: inversions_alternating)
qed

text \<open>
  On a row of even length whose half fits the 32-bit index, \<open>is_sorted\<close> returns true
  exactly if the row is not empty and its first half is all light; on the empty row it
  returns false.
\<close>

theorem is_sorted_iff_first_half_light:
  assumes "total_count d div 2 < 2 ^ 32" "even (total_count d)"
  shows "is_sorted d =
     Some (Inr (0 < total_count d \<and> (\<forall>i < total_count d div 2. get d i = Inr DISK_LIGHT)))"
proof -
  have "(\<forall>i < total_count d div 2. get d i = Inr DISK_LIGHT) \<longleftrightarrow>
        (\<forall>i < total_count d div 2. colors d ! i = DISK_LIGHT)"
    by (auto simp: get_def is_index_def)
  moreover have "0 < total_count d \<longleftrightarrow> 0 < total_count d div 2"
    using assms(2) by (auto elim: evenE)
  ultimately show ?thesis
    using is_sorted_small [OF assms(1)] by (simp add: first_half_light_def)
qed

theorem is_sorted_empty_row: "is_sorted \<lparr>colors = []\<rparr> = Some (Inr False)"
  by code_simp

text \<open>
  Up to \<open>2 ^ 32 - 1\<close> pairs, both loops return after exactly \<open>n * (n + 1) div 2\<close>
  increments of the counter, one for each swap.
\<close>

theorem swaps_performed_canonical_row:
  assumes "1 \<le> n" "n < 2 ^ 32"
  shows "sort_left_to_right_loop \<lparr>colors = concat (replicate n [DISK_DARK, DISK_LIGHT])\<rparr> 0 =
       Some (Inr (\<lparr>colors = replicate n DISK_LIGHT @ replicate n DISK_DARK\<rparr>,
                  int (n * (n + 1) div 2))) \<and>
     sort_lawnmower_loop \<lparr>colors = concat (replicate n [DISK_DARK, DISK_LIGHT])\<rparr> 0 =
       Some (Inr (\<lparr>colors = replicate n DISK_LIGHT @ replicate n DISK_DARK\<rparr>,
                  int (n * (n + 1) div 2)))"
proof -
  have n: "0 < n" using assms(1) by simp
  show ?thesis
    using sort_left_to_right_loop_balanced [OF n assms(2) balanced_alternating, of 0]
      sort_lawnmower_loop_balanced [OF n assms(2) balanced_alternating, of 0]
    by (simp add: inversions_alternating)
qed

text \<open>
  The count that is reported is the count modulo \<open>2 ^ 32\<close>: on the row of 92682 pairs both
  algorithms perform 4295022903 swaps and report 55607.
\<close>

theorem swap_count_of_92682_pairs:
  "sort_left_to_right_loop \<lparr>colors = concat (replicate 92682 [DISK_DARK, DISK_LIGHT])\<rparr> 0 =
     Some (Inr (\<lparr>colors = replicate 92682 DISK_LIGHT @ replicate 92682 DISK_DARK\<rparr>,
                4295022903)) \<and>
   sort_lawnmower_loop \<lparr>colors = concat (replicate 92682 [DISK_DARK, DISK_LIGHT])\<rparr> 0 =
     Some (Inr (\<lparr>colors = replicate 92682 DISK_LIGHT @ replicate 92682 DISK_DARK\<rparr>,
                4295022903)) \<and>
   sort_left_to_right \<lparr>colors = concat (replicate 92682 [DISK_DARK, DISK_LIGHT])\<rparr> =
     Some (Inr \<lparr>after = \<lparr>colors = replicate 92682 DISK_LIGHT @ replicate 92682 DISK_DARK\<rparr>,
                swap_count = 55607\<rparr>) \<and>
   sort_lawnmower \<lparr>colors = concat (replicate 92682 [DISK_DARK, DISK_LIGHT])\<rparr> =
     Some (Inr \<lparr>after = \<lparr>colors = replicate 92682 DISK_LIGHT @ replicate 92682 DISK_DARK\<rparr>,
                swap_count = 55607\<rparr>) \<and>
   unat (55607 :: 32 word) \<noteq> 92682 * (92682 + 1) div 2"
proof -
  let ?d = "\<lparr>colors = concat (replicate 92682 [DISK_DARK, DISK_LIGHT])\<rparr>"
  have b: "balanced ?d 92682" by (rule balanced_alternating)
  have i: "int (inversions (colors ?d)) = 4295022903"
    by (simp add: inversions_alternating)
  have c: "(of_nat (inversions (colors ?d)) :: 32 word) = 55607"
    by (simp add: inversions_alternating)
  have l: "sort_left_to_right_loop ?d 0 =
     Some (Inr (\<lparr>colors = replicate 92682 DISK_LIGHT @ replicate 92682 DISK_DARK\<rparr>, 4295022903))"
    using sort_left_to_right_loop_balanced [OF _ _ b, of 0] i by simp
  have m: "sort_lawnmower_loop ?d 0 =
     Some (Inr (\<lparr>colors = replicate 92682 DISK_LIGHT @ replicate 92682 DISK_DARK\<rparr>, 4295022903))"
    using sort_lawnmower_loop_balanced [OF _ _ b, of 0] i by simp
  show ?thesis
    using l m sort_left_to_right_balanced [OF _ _ b] sort_lawnmower_balanced [OF _ _ b] c
    by simp
qed

lemma swap_preserves:
  assumes "swap d i = Inr d'"
  shows "mset (colors d') = mset (colors d)"
    and "\<forall>j. j \<noteq> i \<and> j \<noteq> i + 1 \<longrightarrow> get d' j = get d j"
proof -
  from assms have i: "i < length (colors d)" "i + 1 < length (colors d)"
    and d': "d' = d\<lparr>colors := (colors d)[i := colors d ! (i + 1), i + 1 := colors d ! i]\<rparr>"
    by (auto simp: swap_def is_index_def total_count_def Let_def split: if_splits)
  show "mset (colors d') = mset (colors d)"
    using mset_swap [OF i(2) i(1)] d' by simp
  show "\<forall>j. j \<noteq> i \<and> j \<noteq> i + 1 \<longrightarrow> get d' j = get d j"
    using d' by (simp add: get_def is_index_def total_count_def)
qed

lemma same_disks:
  assumes "mset (colors d') = mset (colors d)"
  shows "total_count d' = total_count d
     \<and> count_list (colors d') DISK_LIGHT = count_list (colors d) DISK_LIGHT
     \<and> count_list (colors d') DISK_DARK = count_list (colors d) DISK_DARK"
  using assms total_count_mset [OF assms] by (metis count_mset)

lemma sort_left_to_right_mset:
  assumes "sort_left_to_right d = Some (Inr r)"
  shows "mset (colors (after r)) = mset (colors d)"
proof -
  from assms obtain y where y: "sort_left_to_right_loop d 0 = Some y"
    and m: "map_sum id make_sorted_disks y = Inr r"
    by (auto simp: sort_left_to_right_def)
  from m obtain p where p: "y = Inr p" "r = make_sorted_disks p" by (cases y) auto
  obtain d' c where dc: "p = (d', c)" by (cases p)
  show ?thesis using sort_left_to_right_loop_mset [OF y] p dc
    by (simp add: make_sorted_disks_def)
qed

lemma sort_lawnmower_mset:
  assumes "sort_lawnmower d = Some (Inr r)"
  shows "mset (colors (after r)) = mset (colors d)"
proof -
  from assms obtain y where y: "sort_lawnmower_loop d 0 = Some y"
    and m: "map_sum id make_sorted_disks y = Inr r"
    by (auto simp: sort_lawnmower_def)
  from m obtain p where p: "y = Inr p" "r = make_sorted_disks p" by (cases y) auto
  obtain d' c where dc: "p = (d', c)" by (cases p)
  show ?thesis using sort_lawnmower_loop_mset [OF y] p dc
    by (simp add: make_sorted_disks_def)
qed

section \<open>Runs that hang\<close>

subsection \<open>The bounded runs and the loops\<close>

lemma sort_left_to_right_loop_step:
  "is_sorted d = Some (Inr False) \<Longrightarrow> pass_right d c 0 = Inr (d', c') \<Longrightarrow>
   sort_left_to_right_loop d c = sort_left_to_right_loop d' c'"
  by (subst sort_left_to_right_loop.simps) simp

lemma sort_lawnmower_loop_step:
  "is_sorted d = Some (Inr False) \<Longrightarrow> pass_right d c 0 = Inr (d', c') \<Longrightarrow>
   pass_left d' c' (size_t_pred (total_count d')) = Inr (d'', c'') \<Longrightarrow>
   sort_lawnmower_loop d c = sort_lawnmower_loop d'' c''"
  by (subst sort_lawnmower_loop.simps) simp

lemma left_to_right_run_loop:
  "left_to_right_run k d c = r \<Longrightarrow>
   (case r of
      Returns d' c' \<Rightarrow> sort_left_to_right_loop d c = Some (Inr (d', c'))
    | Aborts e \<Rightarrow> sort_left_to_right_loop d c = Some (Inl e)
    | Hangs d' c' \<Rightarrow> sort_left_to_right_loop d c = None
    | Running d' c' \<Rightarrow> True)"
proof (induction k arbitrary: d c)
  case 0
  then show ?case by auto
next
  case (Suc k)
  show ?case
  proof (cases "is_sorted d = Some (Inr False) \<and> (\<exists>d' c'. pass_right d c 0 = Inr (d', c'))")
    case True
    then obtain d' c' where srt: "is_sorted d = Some (Inr False)"
      and pr: "pass_right d c 0 = Inr (d', c')" by blast
    have "left_to_right_run k d' c' = r" using srt pr Suc.prems by simp
    then show ?thesis
      unfolding sort_left_to_right_loop_step [OF srt pr] by (rule Suc.IH)
  next
    case False
    have "sort_left_to_right_loop d c =
       (case is_sorted d of
          None \<Rightarrow> None
        | Some (Inl e) \<Rightarrow> Some (Inl e)
        | Some (Inr b) \<Rightarrow>
            if b then Some (Inr (d, c))
            else (case pass_right d c 0 of
                    Inl e \<Rightarrow> Some (Inl e)
                  | Inr (d', cnt') \<Rightarrow> sort_left_to_right_loop d' cnt'))"
      by (rule sort_left_to_right_loop.simps)
    then show ?thesis using False Suc.prems
      by (auto split: option.splits sum.splits if_splits)
  qed
qed

lemma lawnmower_run_loop:
  "lawnmower_run k d c = r \<Longrightarrow>
   (case r of
      Returns d' c' \<Rightarrow> sort_lawnmower_loop d c = Some (Inr (d', c'))
    | Aborts e \<Rightarrow> sort_lawnmower_loop d c = Some (Inl e)
    | Hangs d' c' \<Rightarrow> sort_lawnmower_loop d c = None
    | Running d' c' \<Rightarrow> True)"
proof (induction k arbitrary: d c)
  case 0
  then show ?case by auto
next
  case (Suc k)
  show ?case
  proof (cases "is_sorted d = Some (Inr False) \<and>
      (\<exists>d' c' d'' c''. pass_right d c 0 = Inr (d', c') \<and>
         pass_left d' c' (size_t_pred (total_count d')) = Inr (d'', c''))")
    case True
    then obtain d' c' d'' c'' where srt: "is_sorted d = Some (Inr False)"
      and pr: "pass_right d c 0 = Inr (d', c')"
      and pl: "pass_left d' c' (size_t_pred (total_count d')) = Inr (d'', c'')" by blast
    have "lawnmower_run k d'' c'' = r" using srt pr pl Suc.prems by simp
    then show ?thesis
      unfolding sort_lawnmower_loop_step [OF srt pr pl] by (rule Suc.IH)
  next
    case False
    have "sort_lawnmower_loop d c =
       (case is_sorted d of
          None \<Rightarrow> None
        | Some (Inl e) \<Rightarrow> Some (Inl e)
        | Some (Inr b) \<Rightarrow>
            if b then Some (Inr (d, c))
            else (case pass_right d c 0 of
                    Inl e \<Rightarrow> Some (Inl e)
                  | Inr (d', cnt') \<Rightarrow>
                      (case pass_left d' cnt' (size_t_pred (total_count d')) of
                         Inl e \<Rightarrow> Some (Inl e)
                       | Inr (d'', cnt'') \<Rightarrow> sort_lawnmower_loop d'' cnt'')))"
      by (rule sort_lawnmower_loop.simps)
    then show ?thesis using False Suc.prems
      by (auto split: option.splits sum.splits if_splits)
  qed
qed

text \<open>The bounded runs on the row of 2 pairs: both return after 3 swaps.\<close>

lemma runs_on_two_pairs:
  "left_to_right_run 3 \<lparr>colors = [DISK_DARK, DISK_LIGHT, DISK_DARK, DISK_LIGHT]\<rparr> 0 =
     Returns \<lparr>colors = [DISK_LIGHT, DISK_LIGHT, DISK_DARK, DISK_DARK]\<rparr> 3"
  "lawnmower_run 2 \<lparr>colors = [DISK_DARK, DISK_LIGHT, DISK_DARK, DISK_LIGHT]\<rparr> 0 =
     Returns \<lparr>colors = [DISK_LIGHT, DISK_LIGHT, DISK_DARK, DISK_DARK]\<rparr> 3"
  by code_simp+

subsection \<open>A pass as a function on lists\<close>

lemma pass_right_bubble:
  "length pre = i \<Longrightarrow> pre @ xs \<noteq> [] \<Longrightarrow>
   \<exists>c'. pass_right \<lparr>colors = pre @ xs\<rparr> c i =
          Inr (\<lparr>colors = pre @ bubble DISK_DARK DISK_LIGHT xs\<rparr>, c')"
proof (induction "length xs" arbitrary: xs pre i c rule: less_induct)
  case less
  let ?d = "\<lparr>colors = pre @ xs\<rparr>"
  have sp: "size_t_pred (total_count ?d) = length pre + length xs - 1"
    using less.prems(2) by (auto simp: size_t_pred_def)
  show ?case
  proof (cases xs)
    case Nil
    then have "\<not> i < size_t_pred (total_count ?d)" using sp less.prems(1) by simp
    then have "pass_right ?d c i = Inr (?d, c)"
      by (subst pass_right.simps) (simp only: if_False)
    then show ?thesis using Nil by simp
  next
    case (Cons x ys)
    show ?thesis
    proof (cases ys)
      case Nil
      then have "\<not> i < size_t_pred (total_count ?d)" using sp less.prems(1) Cons by simp
      then have "pass_right ?d c i = Inr (?d, c)"
        by (subst pass_right.simps) (simp only: if_False)
      then show ?thesis using Nil Cons by simp
    next
      case ys: (Cons y zs)
      have xs: "xs = x # y # zs" using Cons ys by simp
      have lt: "i < size_t_pred (total_count ?d)" using sp less.prems(1) xs by simp
      have g0: "get ?d i = Inr x"
        using less.prems(1) xs by (simp add: get_def is_index_def nth_append)
      have g1: "get ?d (i + 1) = Inr y"
        using less.prems(1) xs by (simp add: get_def is_index_def nth_append)
      show ?thesis
      proof (cases "x = DISK_DARK \<and> y = DISK_LIGHT")
        case True
        have sw: "swap ?d i = Inr \<lparr>colors = (pre @ [DISK_LIGHT]) @ DISK_DARK # zs\<rparr>"
          using swap_ok [of i ?d] less.prems(1) xs True by (simp add: nth_append)
        have unf: "pass_right ?d c i =
            pass_right \<lparr>colors = (pre @ [DISK_LIGHT]) @ DISK_DARK # zs\<rparr> (c + 1) (i + 1)"
          using lt g0 g1 True sw by (subst pass_right.simps) simp
        have "\<exists>c'. pass_right \<lparr>colors = (pre @ [DISK_LIGHT]) @ DISK_DARK # zs\<rparr> (c + 1) (i + 1) =
            Inr (\<lparr>colors = (pre @ [DISK_LIGHT]) @ bubble DISK_DARK DISK_LIGHT (DISK_DARK # zs)\<rparr>, c')"
          using less.prems(1) xs by (intro less.hyps) simp_all
        then show ?thesis using unf xs True by simp
      next
        case False
        have unf: "pass_right ?d c i = pass_right \<lparr>colors = (pre @ [x]) @ y # zs\<rparr> c (i + 1)"
          using lt g0 g1 False xs by (subst pass_right.simps) auto
        have "\<exists>c'. pass_right \<lparr>colors = (pre @ [x]) @ y # zs\<rparr> c (i + 1) =
            Inr (\<lparr>colors = (pre @ [x]) @ bubble DISK_DARK DISK_LIGHT (y # zs)\<rparr>, c')"
          using less.prems(1) xs by (intro less.hyps) simp_all
        then show ?thesis using unf xs False by auto
      qed
    qed
  qed
qed

lemma pass_left_bubble:
  "zs \<noteq> [] \<Longrightarrow>
   \<exists>c'. pass_left \<lparr>colors = rev zs @ suf\<rparr> c (length zs - 1) =
          Inr (\<lparr>colors = rev (bubble DISK_LIGHT DISK_DARK zs) @ suf\<rparr>, c')"
proof (induction "length zs" arbitrary: zs suf c rule: less_induct)
  case less
  let ?d = "\<lparr>colors = rev zs @ suf\<rparr>"
  obtain x ys where zs: "zs = x # ys" using less.prems by (cases zs) auto
  show ?case
  proof (cases ys)
    case Nil
    then have "pass_left ?d c (length zs - 1) = Inr (?d, c)"
      using zs by (subst pass_left.simps) simp
    then show ?thesis using Nil zs by simp
  next
    case (Cons y ws)
    have zs': "zs = x # y # ws" using zs Cons by simp
    have j: "length zs - 1 = length ws + 1" using zs' by simp
    have g0: "get ?d (length ws + 1) = Inr x"
      using zs' by (simp add: get_def is_index_def nth_append)
    have g1: "get ?d (length ws + 1 - 1) = Inr y"
      using zs' by (simp add: get_def is_index_def nth_append)
    show ?thesis
    proof (cases "x = DISK_LIGHT \<and> y = DISK_DARK")
      case True
      have "swap ?d (length ws) =
          Inr (?d\<lparr>colors := take (length ws) (colors ?d) @ colors ?d ! (length ws + 1)
                 # colors ?d ! length ws # drop (length ws + 2) (colors ?d)\<rparr>)"
        using zs' by (intro swap_ok) simp
      then have sw: "swap ?d (length ws) = Inr \<lparr>colors = rev (DISK_LIGHT # ws) @ DISK_DARK # suf\<rparr>"
        using zs' True by (simp add: nth_append)
      have unf: "pass_left ?d c (length zs - 1) =
          pass_left \<lparr>colors = rev (DISK_LIGHT # ws) @ DISK_DARK # suf\<rparr> (c + 1)
            (length (DISK_LIGHT # ws) - 1)"
        unfolding j using g0 g1 True sw by (subst pass_left.simps) simp
      have "\<exists>c'. pass_left \<lparr>colors = rev (DISK_LIGHT # ws) @ DISK_DARK # suf\<rparr> (c + 1)
            (length (DISK_LIGHT # ws) - 1) =
          Inr (\<lparr>colors = rev (bubble DISK_LIGHT DISK_DARK (DISK_LIGHT # ws)) @ DISK_DARK # suf\<rparr>, c')"
        using zs' by (intro less.hyps) simp_all
      then show ?thesis using unf zs' True by simp
    next
      case False
      have unf: "pass_left ?d c (length zs - 1) =
          pass_left \<lparr>colors = rev (y # ws) @ x # suf\<rparr> c (length (y # ws) - 1)"
        unfolding j using g0 g1 False zs' by (subst pass_left.simps) auto
      have "\<exists>c'. pass_left \<lparr>colors = rev (y # ws) @ x # suf\<rparr> c (length (y # ws) - 1) =
          Inr (\<lparr>colors = rev (bubble DISK_LIGHT DISK_DARK (y # ws)) @ x # suf\<rparr>, c')"
        using zs' by (intro less.hyps) simp_all
      then show ?thesis using unf zs' False by auto
    qed
  qed
qed

subsection \<open>The stages of the canonical row\<close>

lemma bubble_same: "p \<noteq> q \<Longrightarrow> bubble p q (p # replicate b p) = p # replicate b p"
  by (induction b) simp_all

lemma bubble_carry:
  "p \<noteq> q \<Longrightarrow>
   bubble p q (p # concat (replicate j [p, q]) @ replicate b p) =
     concat (replicate j [p, q]) @ replicate (Suc b) p"
proof (induction j)
  case 0
  then show ?case using bubble_same [of p q b] by simp
next
  case (Suc j)
  then show ?case by simp
qed

lemma bubble_skip:
  "p \<noteq> q \<Longrightarrow> ys \<noteq> [] \<Longrightarrow> bubble p q (replicate a q @ ys) = replicate a q @ bubble p q ys"
proof (induction a)
  case 0
  then show ?case by simp
next
  case (Suc a)
  obtain y zs where "replicate a q @ ys = y # zs"
    using Suc.prems(2) by (cases "replicate a q @ ys") auto
  then show ?case using Suc by auto
qed

lemma bubble_stage:
  assumes "p \<noteq> q"
  shows "bubble p q (replicate a q @ concat (replicate (Suc m) [p, q]) @ replicate b p) =
     replicate (Suc a) q @ concat (replicate m [p, q]) @ replicate (Suc b) p"
proof -
  have "bubble p q (concat (replicate (Suc m) [p, q]) @ replicate b p) =
      q # concat (replicate m [p, q]) @ replicate (Suc b) p"
    using bubble_carry [OF assms, of m b] by simp
  then have "bubble p q (replicate a q @ concat (replicate (Suc m) [p, q]) @ replicate b p) =
      replicate a q @ q # concat (replicate m [p, q]) @ replicate (Suc b) p"
    using bubble_skip [OF assms, of "concat (replicate (Suc m) [p, q]) @ replicate b p" a] by simp
  then show ?thesis by (simp add: replicate_append_same)
qed

lemma rev_concat_replicate:
  "rev (concat (replicate m xs)) = concat (replicate m (rev xs))"
proof (induction m)
  case 0
  show ?case by simp
next
  case (Suc m)
  have "rev (concat (replicate (Suc m) xs)) = concat (replicate m (rev xs)) @ rev xs"
    using Suc by simp
  then show ?case by (simp only: alternating_snoc)
qed

lemma inversions_replicate: "inversions (replicate a c) = 0"
  by (induction a) (simp_all add: count_list_replicate_colors)

lemma inversions_stage: "inversions (colors (stage a m)) = m * (m + 1) div 2"
  by (simp add: stage_def inversions_append inversions_replicate inversions_alternating
        count_list_replicate_colors)

lemma total_count_stage: "total_count (stage a m) = 2 * (a + m)"
  by (simp add: stage_def length_alternating)

lemma stage_0: "stage 0 n = \<lparr>colors = concat (replicate n [DISK_DARK, DISK_LIGHT])\<rparr>"
  by (simp add: stage_def)

lemma triangle_Suc: "Suc m * (Suc m + 1) div 2 = m * (m + 1) div 2 + Suc m"
proof -
  have "Suc m * (Suc m + 1) = m * (m + 1) + 2 * Suc m" by simp
  then have "Suc m * (Suc m + 1) div 2 = (m * (m + 1) + 2 * Suc m) div 2" by simp
  also have "\<dots> = Suc m + m * (m + 1) div 2" by (rule div_mult_self2) simp
  finally show ?thesis by (simp only: add.commute)
qed

lemma pass_right_stage:
  "pass_right (stage a (Suc m)) c 0 = Inr (stage (Suc a) m, c + int (Suc m))"
proof -
  let ?d = "stage a (Suc m)"
  have pos: "0 < total_count ?d" by (simp add: total_count_stage)
  from pass_right_run [OF pos, of c 0]
  obtain d' k where r: "pass_right ?d c 0 = Inr (d', c + int k)"
    and iv: "inversions (colors d') + k = inversions (colors ?d)"
    by blast
  have "\<exists>c'. pass_right \<lparr>colors = [] @ colors ?d\<rparr> c 0 =
      Inr (\<lparr>colors = [] @ bubble DISK_DARK DISK_LIGHT (colors ?d)\<rparr>, c')"
    by (rule pass_right_bubble) (simp_all add: stage_def)
  moreover have "bubble DISK_DARK DISK_LIGHT (colors ?d) = colors (stage (Suc a) m)"
    unfolding stage_def using bubble_stage [of DISK_DARK DISK_LIGHT a m a] by simp
  ultimately have d': "d' = stage (Suc a) m" using r by (simp add: stage_def)
  have "k = Suc m" using iv unfolding d' inversions_stage triangle_Suc by simp
  then show ?thesis using r d' by simp
qed

lemma pass_left_stage:
  "pass_left (stage a (Suc m)) c (size_t_pred (total_count (stage a (Suc m)))) =
     Inr (stage (Suc a) m, c + int (Suc m))"
proof -
  let ?d = "stage a (Suc m)"
  let ?zs = "rev (colors ?d)"
  have sp: "size_t_pred (total_count ?d) = length ?zs - 1"
    by (simp add: size_t_pred_def total_count_def stage_def)
  have lt: "size_t_pred (total_count ?d) < total_count ?d"
    by (simp add: size_t_pred_def total_count_stage)
  from pass_left_run [OF lt, of c]
  obtain d' k where r: "pass_left ?d c (size_t_pred (total_count ?d)) = Inr (d', c + int k)"
    and iv: "inversions (colors d') + k = inversions (colors ?d)"
    by blast
  have "\<exists>c'. pass_left \<lparr>colors = rev ?zs @ []\<rparr> c (length ?zs - 1) =
      Inr (\<lparr>colors = rev (bubble DISK_LIGHT DISK_DARK ?zs) @ []\<rparr>, c')"
    by (rule pass_left_bubble) (simp add: stage_def)
  moreover have "?zs = replicate a DISK_DARK @ concat (replicate (Suc m) [DISK_LIGHT, DISK_DARK])
      @ replicate a DISK_LIGHT"
    by (simp add: stage_def rev_concat_replicate del: replicate.simps concat.simps)
  then have "rev (bubble DISK_LIGHT DISK_DARK ?zs) = colors (stage (Suc a) m)"
    using bubble_stage [of DISK_LIGHT DISK_DARK a m a]
    by (simp add: stage_def rev_concat_replicate del: replicate.simps concat.simps)
  moreover have "\<lparr>colors = rev ?zs @ []\<rparr> = ?d" by simp
  ultimately have d': "d' = stage (Suc a) m" using r sp by (simp add: stage_def)
  have "k = Suc m" using iv unfolding d' inversions_stage triangle_Suc by simp
  then show ?thesis using r d' by simp
qed

subsection \<open>The runs on the stages\<close>

lemma is_sorted_loop_first_dark:
  assumes k: "k < total_count d div 2" "k < 2 ^ 32" "colors d ! k = DISK_DARK"
  shows "unat i \<le> k \<Longrightarrow> is_sorted_loop d i s = Some (Inr False)"
proof (induction "k - unat i" arbitrary: i s)
  case 0
  then have i: "unat i = k" by simp
  have "get d (unat i) = Inr DISK_DARK" using k i by (simp add: get_def is_index_def)
  then show ?case using k i by (subst is_sorted_loop.simps) simp
next
  case (Suc m)
  then have lt: "unat i < k" by simp
  then have "unat i + 1 < 2 ^ 32" using k(2) by simp
  then have u: "unat (i + 1) = unat i + 1" by (simp add: unat_word_ariths)
  have h: "unat i < total_count d div 2" using lt k(1) by simp
  then have g: "get d (unat i) = Inr (colors d ! unat i)" by (intro get_in_range) simp
  show ?case
  proof (cases "colors d ! unat i = DISK_LIGHT")
    case True
    have "is_sorted_loop d i s = is_sorted_loop d (i + 1) True"
      using h g True by (subst is_sorted_loop.simps) simp
    also have "\<dots> = Some (Inr False)"
      using Suc.hyps(2) lt u by (intro Suc.hyps(1)) simp_all
    finally show ?thesis .
  next
    case False
    then show ?thesis using h g by (subst is_sorted_loop.simps) simp
  qed
qed

lemma is_sorted_first_dark:
  "k < total_count d div 2 \<Longrightarrow> k < 2 ^ 32 \<Longrightarrow> colors d ! k = DISK_DARK \<Longrightarrow>
   is_sorted d = Some (Inr False)"
  unfolding is_sorted_def by (rule is_sorted_loop_first_dark) simp_all

lemma is_sorted_stage_false: "a < 2 ^ 32 \<Longrightarrow> is_sorted (stage a (Suc m)) = Some (Inr False)"
  by (rule is_sorted_first_dark [of a]) (simp_all add: total_count_stage, simp add: stage_def nth_append)

lemma is_sorted_stage_hangs: "2 ^ 32 \<le> a \<Longrightarrow> is_sorted (stage a m) = None"
  by (rule is_sorted_all_light) (simp_all add: total_count_stage, simp add: stage_def nth_append)

lemma left_to_right_run_stage:
  "a + t = 2 ^ 32 \<Longrightarrow>
   left_to_right_run (Suc t) (stage a (t + r)) c =
     Hangs (stage (2 ^ 32) r) (c + int ((t + r) * (t + r + 1) div 2) - int (r * (r + 1) div 2))"
proof (induction t arbitrary: a c)
  case 0
  then show ?case using is_sorted_stage_hangs [of a r] by simp
next
  case (Suc t)
  then have a: "a < 2 ^ 32" and a': "Suc a + t = 2 ^ 32" by simp_all
  have "left_to_right_run (Suc (Suc t)) (stage a (Suc (t + r))) c =
      left_to_right_run (Suc t) (stage (Suc a) (t + r)) (c + int (Suc (t + r)))"
    using is_sorted_stage_false [OF a] pass_right_stage [of a "t + r" c]
    by (subst left_to_right_run.simps) simp
  also have "\<dots> = Hangs (stage (2 ^ 32) r)
      (c + int (Suc (t + r)) + int ((t + r) * (t + r + 1) div 2) - int (r * (r + 1) div 2))"
    using a' by (rule Suc.IH)
  finally show ?case using triangle_Suc [of "t + r"] by simp
qed

lemma lawnmower_run_stage:
  "a + 2 * t = 2 ^ 32 \<Longrightarrow>
   lawnmower_run (Suc t) (stage a (2 * t + r)) c =
     Hangs (stage (2 ^ 32) r)
       (c + int ((2 * t + r) * (2 * t + r + 1) div 2) - int (r * (r + 1) div 2))"
proof (induction t arbitrary: a c)
  case 0
  then show ?case using is_sorted_stage_hangs [of a r] by simp
next
  case (Suc t)
  then have a: "a < 2 ^ 32" and a': "Suc (Suc a) + 2 * t = 2 ^ 32" by simp_all
  let ?m = "2 * t + r"
  have "lawnmower_run (Suc (Suc t)) (stage a (Suc (Suc ?m))) c =
      lawnmower_run (Suc t) (stage (Suc (Suc a)) ?m) (c + int (Suc (Suc ?m)) + int (Suc ?m))"
    using is_sorted_stage_false [OF a] pass_right_stage [of a "Suc ?m" c]
      pass_left_stage [of "Suc a" ?m "c + int (Suc (Suc ?m))"]
    by (subst lawnmower_run.simps) simp
  also have "\<dots> = Hangs (stage (2 ^ 32) r)
      (c + int (Suc (Suc ?m)) + int (Suc ?m) + int (?m * (?m + 1) div 2) - int (r * (r + 1) div 2))"
    using a' by (rule Suc.IH)
  finally show ?case using triangle_Suc [of ?m] triangle_Suc [of "Suc ?m"] by simp
qed


section \<open>The claims of the specification\<close>

text \<open>
  Claim C1: for every \<open>n \<ge> 1\<close> both algorithms turn the row built by \<open>disk_state n\<close>
  into a row of \<open>2 * n\<close> disks, the first \<open>n\<close> light and the last \<open>n\<close> dark, on which
  \<open>is_sorted\<close> is true. Below \<open>2 ^ 32\<close> this is \<open>sort_canonical_row\<close>. At \<open>n = 2 ^ 32\<close>
  the code breaks it: the constructor builds the row, but neither algorithm ever returns,
  since the 32-bit index of \<open>is_sorted\<close> wraps to 0 before it reaches the middle of the row.
\<close>

theorem row_of_2_32_pairs_is_never_sorted:
  "disk_state 4294967296 =
     Inr \<lparr>colors = concat (replicate 4294967296 [DISK_DARK, DISK_LIGHT])\<rparr> \<and>
   sort_left_to_right \<lparr>colors = concat (replicate 4294967296 [DISK_DARK, DISK_LIGHT])\<rparr> = None \<and>
   sort_lawnmower \<lparr>colors = concat (replicate 4294967296 [DISK_DARK, DISK_LIGHT])\<rparr> = None"
proof -
  let ?d = "\<lparr>colors = concat (replicate 4294967296 [DISK_DARK, DISK_LIGHT])\<rparr>"
  have big: "2 ^ 32 \<le> total_count ?d div 2" by (simp add: length_alternating)
  have "disk_state 4294967296 = Inr ?d" by (rule disk_state_alternating) simp_all
  moreover have "sort_left_to_right ?d = None"
    using sort_left_to_right_loop_diverges [OF big, of 0] by (simp add: sort_left_to_right_def)
  moreover have "sort_lawnmower ?d = None"
    using sort_lawnmower_loop_diverges [OF big, of 0] by (simp add: sort_lawnmower_def)
  ultimately show ?thesis by simp
qed

text \<open>
  Claim C2: on every row that the public operations can reach, the outer loops of both
  algorithms reach a state where \<open>is_sorted\<close> is true after finitely many iterations. Below
  \<open>2 ^ 32\<close> pairs this is \<open>sort_terminates_on_balanced_rows\<close>. On the row of \<open>2 ^ 32\<close>
  pairs, which has as many light as dark disks, neither loop ever exits.
\<close>

theorem outer_loops_never_exit_on_2_32_pairs:
  "balanced \<lparr>colors = concat (replicate 4294967296 [DISK_DARK, DISK_LIGHT])\<rparr> 4294967296 \<and>
   sort_left_to_right_loop \<lparr>colors = concat (replicate 4294967296 [DISK_DARK, DISK_LIGHT])\<rparr> 0 = None \<and>
   sort_lawnmower_loop \<lparr>colors = concat (replicate 4294967296 [DISK_DARK, DISK_LIGHT])\<rparr> 0 = None"
proof -
  let ?d = "\<lparr>colors = concat (replicate 4294967296 [DISK_DARK, DISK_LIGHT])\<rparr>"
  have big: "2 ^ 32 \<le> total_count ?d div 2" by (simp add: length_alternating)
  show ?thesis
    using balanced_alternating [of 4294967296]
      sort_left_to_right_loop_diverges [OF big, of 0] sort_lawnmower_loop_diverges [OF big, of 0]
    by simp
qed

text \<open>
  Claim C3: for every \<open>n \<ge> 1\<close> the two algorithms return equal swap counts on the row
  built by \<open>disk_state n\<close>. Below \<open>2 ^ 32\<close> this is \<open>sorts_report_equal_swap_counts\<close>. For
  \<open>n = 2 ^ 32\<close> there are no two returned counts to compare: the algorithms do not return.
\<close>

theorem no_swap_counts_for_2_32_pairs:
  "\<not> (\<exists>rl rm.
        sort_left_to_right \<lparr>colors = concat (replicate 4294967296 [DISK_DARK, DISK_LIGHT])\<rparr> =
          Some (Inr rl) \<and>
        sort_lawnmower \<lparr>colors = concat (replicate 4294967296 [DISK_DARK, DISK_LIGHT])\<rparr> =
          Some (Inr rm) \<and>
        swap_count rl = swap_count rm)"
proof -
  let ?d = "\<lparr>colors = concat (replicate 4294967296 [DISK_DARK, DISK_LIGHT])\<rparr>"
  have big: "2 ^ 32 \<le> total_count ?d div 2" by (simp add: length_alternating)
  have "sort_left_to_right ?d = None"
    using sort_left_to_right_loop_diverges [OF big, of 0] by (simp add: sort_left_to_right_def)
  then show ?thesis by simp
qed

text \<open>
  Claim C4, as stated: on \<open>[DARK, LIGHT, DARK, LIGHT]\<close> the left-to-right algorithm
  returns \<open>[LIGHT, LIGHT, DARK, DARK]\<close> with a swap count of 2. It does not return that
  count.
\<close>

theorem two_pairs_not_sorted_by_two_swaps:
  "sort_left_to_right \<lparr>colors = [DISK_DARK, DISK_LIGHT, DISK_DARK, DISK_LIGHT]\<rparr> \<noteq>
     Some (Inr \<lparr>after = \<lparr>colors = [DISK_LIGHT, DISK_LIGHT, DISK_DARK, DISK_DARK]\<rparr>,
                swap_count = 2\<rparr>)"
  by code_simp

text \<open>
  Claim C4, amended: for \<open>n = 2\<close> the constructor builds \<open>[DARK, LIGHT, DARK, LIGHT]\<close>, on
  which the left-to-right algorithm returns \<open>[LIGHT, LIGHT, DARK, DARK]\<close> with a swap count
  of 3, and the lawnmower algorithm returns the same row and the same count.
\<close>

theorem two_pairs_sorted_by_three_swaps:
  "disk_state 2 = Inr \<lparr>colors = [DISK_DARK, DISK_LIGHT, DISK_DARK, DISK_LIGHT]\<rparr> \<and>
   sort_left_to_right \<lparr>colors = [DISK_DARK, DISK_LIGHT, DISK_DARK, DISK_LIGHT]\<rparr> =
     Some (Inr \<lparr>after = \<lparr>colors = [DISK_LIGHT, DISK_LIGHT, DISK_DARK, DISK_DARK]\<rparr>,
                swap_count = 3\<rparr>) \<and>
   sort_lawnmower \<lparr>colors = [DISK_DARK, DISK_LIGHT, DISK_DARK, DISK_LIGHT]\<rparr> =
     Some (Inr \<lparr>after = \<lparr>colors = [DISK_LIGHT, DISK_LIGHT, DISK_DARK, DISK_DARK]\<rparr>,
                swap_count = 3\<rparr>)"
proof (intro conjI)
  show "disk_state 2 = Inr \<lparr>colors = [DISK_DARK, DISK_LIGHT, DISK_DARK, DISK_LIGHT]\<rparr>"
  proof -
    have "disk_state 2 = Inr \<lparr>colors = concat (replicate 2 [DISK_DARK, DISK_LIGHT])\<rparr>"
      by (rule disk_state_alternating) simp_all
    then show ?thesis by (simp add: numeral_2_eq_2)
  qed
  show "sort_left_to_right \<lparr>colors = [DISK_DARK, DISK_LIGHT, DISK_DARK, DISK_LIGHT]\<rparr> =
     Some (Inr \<lparr>after = \<lparr>colors = [DISK_LIGHT, DISK_LIGHT, DISK_DARK, DISK_DARK]\<rparr>,
                swap_count = 3\<rparr>)"
    by code_simp
  show "sort_lawnmower \<lparr>colors = [DISK_DARK, DISK_LIGHT, DISK_DARK, DISK_LIGHT]\<rparr> =
     Some (Inr \<lparr>after = \<lparr>colors = [DISK_LIGHT, DISK_LIGHT, DISK_DARK, DISK_DARK]\<rparr>,
                swap_count = 3\<rparr>)"
    by code_simp
qed

text \<open>
  Claim C5: for \<open>n = 1\<close> the constructor builds \<open>[DARK, LIGHT]\<close>, on which both algorithms
  perform exactly one swap and return \<open>[LIGHT, DARK]\<close>.
\<close>

theorem one_pair_sorted_by_one_swap:
  "disk_state 1 = Inr \<lparr>colors = [DISK_DARK, DISK_LIGHT]\<rparr> \<and>
   sort_left_to_right \<lparr>colors = [DISK_DARK, DISK_LIGHT]\<rparr> =
     Some (Inr \<lparr>after = \<lparr>colors = [DISK_LIGHT, DISK_DARK]\<rparr>, swap_count = 1\<rparr>) \<and>
   sort_lawnmower \<lparr>colors = [DISK_DARK, DISK_LIGHT]\<rparr> =
     Some (Inr \<lparr>after = \<lparr>colors = [DISK_LIGHT, DISK_DARK]\<rparr>, swap_count = 1\<rparr>)"
proof (intro conjI)
  show "disk_state 1 = Inr \<lparr>colors = [DISK_DARK, DISK_LIGHT]\<rparr>"
    using disk_state_alternating [of 1] by simp
  show "sort_left_to_right \<lparr>colors = [DISK_DARK, DISK_LIGHT]\<rparr> =
     Some (Inr \<lparr>after = \<lparr>colors = [DISK_LIGHT, DISK_DARK]\<rparr>, swap_count = 1\<rparr>)"
    by code_simp
  show "sort_lawnmower \<lparr>colors = [DISK_DARK, DISK_LIGHT]\<rparr> =
     Some (Inr \<lparr>after = \<lparr>colors = [DISK_LIGHT, DISK_DARK]\<rparr>, swap_count = 1\<rparr>)"
    by code_simp
qed

text \<open>
  Claim C6: on a row for which \<open>is_sorted\<close> is already true, both algorithms return a swap
  count of 0 and the row itself.
\<close>

theorem sorted_row_is_returned_unchanged:
  assumes "is_sorted r = Some (Inr True)"
  shows "sort_left_to_right r = Some (Inr \<lparr>after = r, swap_count = 0\<rparr>) \<and>
         sort_lawnmower r = Some (Inr \<lparr>after = r, swap_count = 0\<rparr>)"
proof -
  have "sort_left_to_right_loop r 0 = Some (Inr (r, 0))"
    using assms by (subst sort_left_to_right_loop.simps) simp
  moreover have "sort_lawnmower_loop r 0 = Some (Inr (r, 0))"
    using assms by (subst sort_lawnmower_loop.simps) simp
  ultimately show ?thesis
    by (simp add: sort_left_to_right_def sort_lawnmower_def make_sorted_disks_def)
qed

text \<open>
  A row on which the hypothesis holds.
\<close>

theorem sorted_row_is_returned_unchanged_witness:
  "is_sorted \<lparr>colors = [DISK_LIGHT, DISK_LIGHT, DISK_DARK, DISK_DARK]\<rparr> = Some (Inr True) \<and>
   sort_left_to_right \<lparr>colors = [DISK_LIGHT, DISK_LIGHT, DISK_DARK, DISK_DARK]\<rparr> =
     Some (Inr \<lparr>after = \<lparr>colors = [DISK_LIGHT, DISK_LIGHT, DISK_DARK, DISK_DARK]\<rparr>,
                swap_count = 0\<rparr>) \<and>
   sort_lawnmower \<lparr>colors = [DISK_LIGHT, DISK_LIGHT, DISK_DARK, DISK_DARK]\<rparr> =
     Some (Inr \<lparr>after = \<lparr>colors = [DISK_LIGHT, DISK_LIGHT, DISK_DARK, DISK_DARK]\<rparr>,
                swap_count = 0\<rparr>)"
proof -
  have h: "is_sorted \<lparr>colors = [DISK_LIGHT, DISK_LIGHT, DISK_DARK, DISK_DARK]\<rparr> = Some (Inr True)"
    by code_simp
  show ?thesis using h sorted_row_is_returned_unchanged [OF h] by simp
qed

text \<open>
  Claim C7: the operations fail exactly on their precondition violations. The constructor
  fails if and only if \<open>n = 0\<close>; \<open>get d i\<close> fails if and only if \<open>i \<ge> total_count d\<close>;
  \<open>swap d i\<close> fails if and only if \<open>i \<ge> total_count d\<close> or \<open>i + 1 \<ge> total_count d\<close>, so it
  succeeds exactly when \<open>i + 2 \<le> total_count d\<close>.
\<close>

theorem operations_fail_exactly_outside_preconditions:
  "(disk_state n = Inl AssertionFailed \<longleftrightarrow> n = 0) \<and>
   (get d i = Inl AssertionFailed \<longleftrightarrow> total_count d \<le> i) \<and>
   (swap d i = Inl AssertionFailed \<longleftrightarrow> total_count d \<le> i \<or> total_count d \<le> i + 1) \<and>
   ((\<exists>d'. swap d i = Inr d') \<longleftrightarrow> i + 2 \<le> total_count d)"
  by (auto simp: disk_state_def get_def swap_def is_index_def Let_def)

text \<open>
  The error cases of the specification: no row of 0 pairs, and on the row of 2 pairs
  \<open>get\<close> fails at index 4 and \<open>swap\<close> fails at index 3 and succeeds at index 2.
\<close>

theorem operations_fail_exactly_outside_preconditions_witness:
  "disk_state 0 = Inl AssertionFailed \<and>
   get \<lparr>colors = [DISK_DARK, DISK_LIGHT, DISK_DARK, DISK_LIGHT]\<rparr> 4 = Inl AssertionFailed \<and>
   swap \<lparr>colors = [DISK_DARK, DISK_LIGHT, DISK_DARK, DISK_LIGHT]\<rparr> 3 = Inl AssertionFailed \<and>
   (\<exists>d'. swap \<lparr>colors = [DISK_DARK, DISK_LIGHT, DISK_DARK, DISK_LIGHT]\<rparr> 2 = Inr d')"
  using operations_fail_exactly_outside_preconditions
          [of 0 "\<lparr>colors = [DISK_DARK, DISK_LIGHT, DISK_DARK, DISK_LIGHT]\<rparr>" 4]
        operations_fail_exactly_outside_preconditions
          [of 0 "\<lparr>colors = [DISK_DARK, DISK_LIGHT, DISK_DARK, DISK_LIGHT]\<rparr>" 3]
        operations_fail_exactly_outside_preconditions
          [of 0 "\<lparr>colors = [DISK_DARK, DISK_LIGHT, DISK_DARK, DISK_LIGHT]\<rparr>" 2]
  by simp

text \<open>
  Claim C8: on every row \<open>is_sorted\<close> returns true if and only if the row is not empty and
  the first half is all light. Where the half of the row fits the 32-bit index this is
  \<open>is_sorted_iff_first_half_light\<close>, and \<open>is_sorted_empty_row\<close> on the empty row. On the
  sorted row of \<open>2 ^ 32\<close> light and \<open>2 ^ 32\<close> dark disks the code breaks it: the index wraps
  to 0 after \<open>2 ^ 32\<close> light disks and the scan never returns.
\<close>

theorem is_sorted_never_returns_on_long_sorted_row:
  "is_sorted \<lparr>colors = replicate 4294967296 DISK_LIGHT @ replicate 4294967296 DISK_DARK\<rparr> = None"
  by (rule is_sorted_all_light) (simp_all add: nth_append)

text \<open>
  Claim C9: the operations preserve the disks. A successful \<open>swap d i\<close> leaves the multiset
  of colors, hence the length and the numbers of light and dark disks, unchanged, and leaves
  every position other than \<open>i\<close> and \<open>i + 1\<close> unchanged; a row returned by either algorithm
  has the length and the numbers of light and dark disks of the input row.
\<close>

theorem operations_preserve_the_disks:
  "(swap d i = Inr d' \<longrightarrow>
      mset (colors d') = mset (colors d) \<and> total_count d' = total_count d \<and>
      count_list (colors d') DISK_LIGHT = count_list (colors d) DISK_LIGHT \<and>
      count_list (colors d') DISK_DARK = count_list (colors d) DISK_DARK \<and>
      (\<forall>j. j \<noteq> i \<and> j \<noteq> i + 1 \<longrightarrow> get d' j = get d j)) \<and>
   (sort_left_to_right d = Some (Inr r) \<longrightarrow>
      mset (colors (after r)) = mset (colors d) \<and> total_count (after r) = total_count d \<and>
      count_list (colors (after r)) DISK_LIGHT = count_list (colors d) DISK_LIGHT \<and>
      count_list (colors (after r)) DISK_DARK = count_list (colors d) DISK_DARK) \<and>
   (sort_lawnmower d = Some (Inr r') \<longrightarrow>
      mset (colors (after r')) = mset (colors d) \<and> total_count (after r') = total_count d \<and>
      count_list (colors (after r')) DISK_LIGHT = count_list (colors d) DISK_LIGHT \<and>
      count_list (colors (after r')) DISK_DARK = count_list (colors d) DISK_DARK)"
  using swap_preserves [of d i d'] same_disks [of d' d]
    sort_left_to_right_mset [of d r] same_disks [of "after r" d]
    sort_lawnmower_mset [of d r'] same_disks [of "after r'" d]
  by blast

text \<open>
  A swap and both algorithms on the row of 2 pairs.
\<close>

theorem operations_preserve_the_disks_witness:
  "swap \<lparr>colors = [DISK_DARK, DISK_LIGHT, DISK_DARK, DISK_LIGHT]\<rparr> 1 =
     Inr \<lparr>colors = [DISK_DARK, DISK_DARK, DISK_LIGHT, DISK_LIGHT]\<rparr> \<and>
   sort_left_to_right \<lparr>colors = [DISK_DARK, DISK_LIGHT, DISK_DARK, DISK_LIGHT]\<rparr> =
     Some (Inr \<lparr>after = \<lparr>colors = [DISK_LIGHT, DISK_LIGHT, DISK_DARK, DISK_DARK]\<rparr>,
                swap_count = 3\<rparr>) \<and>
   sort_lawnmower \<lparr>colors = [DISK_DARK, DISK_LIGHT, DISK_DARK, DISK_LIGHT]\<rparr> =
     Some (Inr \<lparr>after = \<lparr>colors = [DISK_LIGHT, DISK_LIGHT, DISK_DARK, DISK_DARK]\<rparr>,
                swap_count = 3\<rparr>) \<and>
   total_count \<lparr>colors = [DISK_DARK, DISK_DARK, DISK_LIGHT, DISK_LIGHT]\<rparr> = 4 \<and>
   count_list [DISK_DARK, DISK_DARK, DISK_LIGHT, DISK_LIGHT] DISK_LIGHT = 2 \<and>
   count_list [DISK_LIGHT, DISK_LIGHT, DISK_DARK, DISK_DARK] DISK_DARK = 2 \<and>
   get \<lparr>colors = [DISK_DARK, DISK_DARK, DISK_LIGHT, DISK_LIGHT]\<rparr> 3 = Inr DISK_LIGHT"
proof -
  let ?d = "\<lparr>colors = [DISK_DARK, DISK_LIGHT, DISK_DARK, DISK_LIGHT]\<rparr>"
  let ?r = "\<lparr>after = \<lparr>colors = [DISK_LIGHT, DISK_LIGHT, DISK_DARK, DISK_DARK]\<rparr>,
             swap_count = 3 :: 32 word\<rparr>"
  have 1: "swap ?d 1 = Inr \<lparr>colors = [DISK_DARK, DISK_DARK, DISK_LIGHT, DISK_LIGHT]\<rparr>"
    by code_simp
  have 2: "sort_left_to_right ?d = Some (Inr ?r)" by code_simp
  have 3: "sort_lawnmower ?d = Some (Inr ?r)" by code_simp
  have 4: "get ?d 3 = Inr DISK_LIGHT" by code_simp
  show ?thesis
    using 1 2 3 4
      operations_preserve_the_disks
        [of ?d 1 "\<lparr>colors = [DISK_DARK, DISK_DARK, DISK_LIGHT, DISK_LIGHT]\<rparr>" ?r ?r]
    by simp
qed

text \<open>
  Claim C10: for every \<open>n \<ge> 1\<close> both algorithms perform exactly \<open>n * (n + 1) div 2\<close>
  swaps on the row built by \<open>disk_state n\<close>. Below \<open>2 ^ 32\<close> this is
  \<open>swaps_performed_canonical_row\<close>. For \<open>n = 2 ^ 32 + 1\<close> the code breaks it: after
  \<open>n * (n + 1) div 2 - 1\<close> swaps the first \<open>2 ^ 32\<close> disks are light, one pair is still out
  of order, and both algorithms hang in \<open>is_sorted\<close>, whose 32-bit index wraps to 0 before
  it reaches the dark disk at index \<open>2 ^ 32\<close>. The last swap is never performed and neither
  algorithm returns.
\<close>

theorem fewer_swaps_on_2_32_plus_1_pairs:
  "disk_state 4294967297 =
     Inr \<lparr>colors = concat (replicate 4294967297 [DISK_DARK, DISK_LIGHT])\<rparr> \<and>
   left_to_right_run 4294967297
       \<lparr>colors = concat (replicate 4294967297 [DISK_DARK, DISK_LIGHT])\<rparr> 0 =
     Hangs \<lparr>colors = replicate 4294967296 DISK_LIGHT @ [DISK_DARK, DISK_LIGHT]
                     @ replicate 4294967296 DISK_DARK\<rparr>
       9223372043297226752 \<and>
   lawnmower_run 2147483649
       \<lparr>colors = concat (replicate 4294967297 [DISK_DARK, DISK_LIGHT])\<rparr> 0 =
     Hangs \<lparr>colors = replicate 4294967296 DISK_LIGHT @ [DISK_DARK, DISK_LIGHT]
                     @ replicate 4294967296 DISK_DARK\<rparr>
       9223372043297226752 \<and>
   (9223372043297226752 :: int) = 4294967297 * (4294967297 + 1) div 2 - 1 \<and>
   sort_left_to_right \<lparr>colors = concat (replicate 4294967297 [DISK_DARK, DISK_LIGHT])\<rparr> = None \<and>
   sort_lawnmower \<lparr>colors = concat (replicate 4294967297 [DISK_DARK, DISK_LIGHT])\<rparr> = None"
proof -
  let ?d = "\<lparr>colors = concat (replicate 4294967297 [DISK_DARK, DISK_LIGHT])\<rparr>"
  let ?h = "\<lparr>colors = replicate 4294967296 DISK_LIGHT @ [DISK_DARK, DISK_LIGHT]
                     @ replicate 4294967296 DISK_DARK\<rparr>"
  have d: "stage 0 (4294967296 + 1) = ?d" by (simp add: stage_0)
  have d': "stage 0 (2 * 2147483648 + 1) = ?d" by (simp add: stage_0)
  have h: "stage (2 ^ 32) 1 = ?h" by (simp add: stage_def)
  have c: "disk_state 4294967297 = Inr ?d" by (rule disk_state_alternating) simp_all
  have l: "left_to_right_run 4294967297 ?d 0 = Hangs ?h 9223372043297226752"
    using left_to_right_run_stage [of 0 4294967296 1 0] unfolding d h by simp
  have m: "lawnmower_run 2147483649 ?d 0 = Hangs ?h 9223372043297226752"
    using lawnmower_run_stage [of 0 2147483648 1 0] unfolding d' h by simp
  have "sort_left_to_right_loop ?d 0 = None" using left_to_right_run_loop [OF l] by simp
  then have sl: "sort_left_to_right ?d = None" by (simp add: sort_left_to_right_def)
  have "sort_lawnmower_loop ?d 0 = None" using lawnmower_run_loop [OF m] by simp
  then have sm: "sort_lawnmower ?d = None" by (simp add: sort_lawnmower_def)
  show ?thesis using c l m sl sm by simp
qed

end
